theory Spec2Isabelle
  imports Complex_Main "HOL-Library.Sublist"
begin

section \<open>Strings\<close>

text \<open>
  A Python \<open>str\<close> is modelled as a \<open>string\<close>; a \<open>char\<close> stands for a code point
  below 256. \<open>isspace_char\<close> holds of the code points below 256 that Python's
  \<open>str.isspace\<close> and \<open>str.strip\<close> treat as whitespace: TAB, LF, VT, FF, CR,
  FS, GS, RS, US, SPACE, NEL and NBSP.
\<close>

definition isspace_char :: "char \<Rightarrow> bool" where
  "isspace_char c = (of_char c \<in> set [9, 10, 11, 12, 13, 28, 29, 30, 31, 32, 133, 160 :: nat])"

text \<open>\<open>str.isspace()\<close>: at least one character, and all of them whitespace.\<close>

definition isspace :: "string \<Rightarrow> bool" where
  "isspace s = (s \<noteq> [] \<and> list_all isspace_char s)"

definition lstrip :: "string \<Rightarrow> string" where
  "lstrip s = dropWhile isspace_char s"

definition rstrip :: "string \<Rightarrow> string" where
  "rstrip s = rev (dropWhile isspace_char (rev s))"

text \<open>\<open>str.strip()\<close> with no argument.\<close>

definition strip :: "string \<Rightarrow> string" where
  "strip s = rstrip (lstrip s)"

text \<open>\<open>s[k:]\<close> for an integer \<open>k \<ge> 0\<close>: past the end it is the empty string.\<close>

definition slice_from :: "int \<Rightarrow> string \<Rightarrow> string" where
  "slice_from k s = drop (nat k) s"

text \<open>\<open>sep.join(xs)\<close>.\<close>

fun join :: "string \<Rightarrow> string list \<Rightarrow> string" where
  "join sep [] = []"
| "join sep [x] = x"
| "join sep (x # y # xs) = x @ sep @ join sep (y # xs)"

text \<open>\<open>text.split(c)\<close> for a one-character separator: never an empty list.\<close>

fun split_on :: "char \<Rightarrow> string \<Rightarrow> string list" where
  "split_on c [] = [[]]"
| "split_on c (x # xs) =
     (if x = c then [] # split_on c xs
      else (case split_on c xs of
              [] \<Rightarrow> [[x]]
            | y # ys \<Rightarrow> (x # y) # ys))"

section \<open>The chunker: the loop of \<open>_split_text\<close>\<close>

text \<open>
  One iteration of \<open>for sentence in sentences\<close> (lines 277 to 285), on the pair
  \<open>(chunks, current_chunk)\<close>. \<open>max_length\<close> and \<open>overlap\<close> are Python integers.
\<close>

definition split_step :: "int \<Rightarrow> int \<Rightarrow> string list \<times> string \<Rightarrow> string \<Rightarrow> string list \<times> string" where
  "split_step max_length overlap acc sentence =
     (case acc of (chunks, current_chunk) \<Rightarrow>
        if int (length current_chunk) + int (length sentence) \<le> max_length
        then (chunks, current_chunk @ '' '' @ sentence)
        else
          (let chunks' = (if strip current_chunk \<noteq> [] then chunks @ [strip current_chunk] else chunks);
               overlap_point = max 0 (int (length current_chunk) - overlap)
           in (chunks', slice_from overlap_point current_chunk @ '' '' @ sentence)))"

fun split_loop :: "int \<Rightarrow> int \<Rightarrow> string list \<times> string \<Rightarrow> string list \<Rightarrow> string list \<times> string" where
  "split_loop max_length overlap acc [] = acc"
| "split_loop max_length overlap acc (sentence # sentences) =
     split_loop max_length overlap (split_step max_length overlap acc sentence) sentences"

text \<open>
  Lines 274 to 291: the loop from \<open>chunks = []\<close>, \<open>current_chunk = ""\<close>, then the
  last buffer is added when it is not blank.
\<close>

definition chunk_sentences :: "int \<Rightarrow> int \<Rightarrow> string list \<Rightarrow> string list" where
  "chunk_sentences max_length overlap sentences =
     (case split_loop max_length overlap ([], []) sentences of (chunks, current_chunk) \<Rightarrow>
        if strip current_chunk \<noteq> [] then chunks @ [strip current_chunk] else chunks)"

section \<open>The assistant, its collaborators and their effects\<close>

text \<open>
  Both exception classes the loops distinguish derive from \<open>Exception\<close>:
  \<open>TimeoutException\<close> (line 30), and \<open>Exception m\<close> for any other one, with its
  message.
\<close>

datatype exn = TimeoutException | Exception string

datatype 'a outcome = Returns 'a | Raises exn

text \<open>A call of a backend: the seconds it runs for, and how it ends.\<close>

type_synonym 'a call = "real \<times> 'a outcome"

text \<open>
  The calls of \<open>st.warning\<close> and \<open>st.error\<close>, in the order they are made. The number
  is the \<open>i+1\<close> of the message.
\<close>

datatype notification =
    Warning_too_long_to_summarize nat
  | Error_summarizing_chunk nat exn
  | Error_in_summary_generation exn
  | Warning_too_long_to_process nat
  | Error_processing_chunk nat exn
  | Error_in_question_answering exn
  | Error_tokenizing_text exn

text \<open>
  A \<open>threading.Timer(interval, function)\<close>, once started, runs \<open>function\<close> in a
  thread of its own when \<open>interval\<close> seconds have passed, unless \<open>cancel()\<close> came
  first. \<open>timeout_handler\<close> (line 33) raises \<open>TimeoutException\<close> in that thread: the
  exception ends the timer's thread and is not raised in the thread that runs the loop.
  \<open>Fired\<close> is a timer whose function has run, \<open>Armed\<close> one that is still waiting.
\<close>

datatype timer_state = Armed | Fired | Cancelled

record app =
  pdf_text :: string
  summary :: string
  notifications :: "notification list"
  timers :: "timer_state list"

text \<open>
  What the core calls and does not define: NLTK's \<open>sent_tokenize\<close> (\<open>Inl\<close> when it
  raises), the two model calls \<open>_summarize_text\<close> and \<open>_answer_question_from_context\<close>,
  the progress and status display updated at the head of every iteration (for chunk
  \<open>i\<close> of \<open>n\<close>; \<open>Some e\<close> when it raises), and the rendering \<open>{:.2f}\<close> of a score.
  The other calls of the display (its creation before the loop, \<open>empty()\<close> after it
  and the notifications themselves) are taken not to raise.
\<close>

record env =
  sent_tokenize :: "string \<Rightarrow> exn + string list"
  summarize_text :: "string \<Rightarrow> string call"
  answer_question_from_context :: "string \<Rightarrow> string \<Rightarrow> (string \<times> real) call"
  progress :: "nat \<Rightarrow> nat \<Rightarrow> exn option"
  format_2f :: "real \<Rightarrow> string"

definition notify :: "notification \<Rightarrow> app \<Rightarrow> app" where
  "notify m st = st\<lparr>notifications := notifications st @ [m]\<rparr>"

text \<open>\<open>timer = Timer(...); timer.start()\<close>: the new timer and the state.\<close>

definition timer_start :: "app \<Rightarrow> nat \<times> app" where
  "timer_start st = (length (timers st), st\<lparr>timers := timers st @ [Armed]\<rparr>)"

text \<open>The work runs for \<open>elapsed\<close> seconds: a timer with a shorter interval fires.\<close>

definition timer_elapse :: "real \<Rightarrow> real \<Rightarrow> nat \<Rightarrow> app \<Rightarrow> app" where
  "timer_elapse interval elapsed k st =
     (if k < length (timers st) \<and> timers st ! k = Armed \<and> interval < elapsed
      then st\<lparr>timers := (timers st)[k := Fired]\<rparr> else st)"

text \<open>\<open>timer.cancel()\<close>: nothing happens to a timer that has fired.\<close>

definition timer_cancel :: "nat \<Rightarrow> app \<Rightarrow> app" where
  "timer_cancel k st =
     (if k < length (timers st) \<and> timers st ! k = Armed
      then st\<lparr>timers := (timers st)[k := Cancelled]\<rparr> else st)"

section \<open>\<open>_split_text\<close>\<close>

text \<open>
  Lines 261 to 291. When \<open>sent_tokenize\<close> raises, the error is shown and the sentences
  are the non-empty pieces between periods, each with a period appended.
\<close>

definition split_text :: "env \<Rightarrow> string \<Rightarrow> int \<Rightarrow> int \<Rightarrow> app \<Rightarrow> string list \<times> app" where
  "split_text env text max_length overlap st =
     (if text = [] \<or> isspace text then ([], st)
      else
        (case (case sent_tokenize env text of
                 Inr sentences \<Rightarrow> (sentences, st)
               | Inl e \<Rightarrow>
                   (map (\<lambda>s. s @ ''.'') (filter (\<lambda>s. s \<noteq> []) (split_on CHR ''.'' text)),
                    notify (Error_tokenizing_text e) st))
         of (sentences, st') \<Rightarrow> (chunk_sentences max_length overlap sentences, st')))"

section \<open>\<open>generate_summary\<close>\<close>

text \<open>
  The body of the loop (lines 136 to 161) for chunk \<open>i\<close> of \<open>n\<close>, on the list
  \<open>summaries\<close> and the state. \<open>Inl\<close> is an exception that leaves the loop, for the
  handler of line 170.
\<close>

definition summary_step ::
  "env \<Rightarrow> nat \<Rightarrow> nat \<Rightarrow> string \<Rightarrow> string list \<times> app \<Rightarrow> exn \<times> app + string list \<times> app" where
  "summary_step env n i chunk acc =
     (case acc of (summaries, st) \<Rightarrow>
        (case progress env i n of
           Some e \<Rightarrow> Inl (e, st)
         | None \<Rightarrow>
             if length chunk < 100 then Inr (summaries, st)
             else
               (case timer_start st of (timer, st1) \<Rightarrow>
                  (case summarize_text env chunk of (elapsed, out) \<Rightarrow>
                     (let st2 = timer_elapse 60 elapsed timer st1 in
                        (case out of
                           Returns chunk_summary \<Rightarrow>
                             Inr (summaries @ [chunk_summary], timer_cancel timer st2)
                         | Raises TimeoutException \<Rightarrow>
                             Inr (summaries,
                                  timer_cancel timer (notify (Warning_too_long_to_summarize (i + 1)) st2))
                         | Raises (Exception m) \<Rightarrow>
                             Inr (summaries,
                                  notify (Error_summarizing_chunk (i + 1) (Exception m))
                                    (timer_cancel timer st2))))))))"

fun summary_loop ::
  "env \<Rightarrow> nat \<Rightarrow> nat \<Rightarrow> string list \<Rightarrow> string list \<times> app \<Rightarrow> exn \<times> app + string list \<times> app" where
  "summary_loop env n i [] acc = Inr acc"
| "summary_loop env n i (chunk # chunks) acc =
     (case summary_step env n i chunk acc of
        Inl err \<Rightarrow> Inl err
      | Inr acc' \<Rightarrow> summary_loop env n (i + 1) chunks acc')"

text \<open>Lines 119 to 172: the returned string and the state afterwards.\<close>

definition generate_summary :: "env \<Rightarrow> app \<Rightarrow> string \<times> app" where
  "generate_summary env st =
     (if pdf_text st = [] then (''Please load a PDF first.'', st)
      else
        (case split_text env (pdf_text st) 500 50 st of (chunks, st1) \<Rightarrow>
           if chunks = [] then (''Unable to extract meaningful text from the PDF.'', st1)
           else
             (case summary_loop env (length chunks) 0 chunks ([], st1) of
                Inl (e, st2) \<Rightarrow>
                  (''An error occurred while generating the summary.'',
                   notify (Error_in_summary_generation e) st2)
              | Inr (summaries, st2) \<Rightarrow>
                  if summaries = []
                  then (''Could not generate a summary. Try a different document or check document quality.'',
                        st2)
                  else (join '' '' summaries, st2\<lparr>summary := join '' '' summaries\<rparr>))))"

section \<open>\<open>answer_question\<close>\<close>

text \<open>
  The body of the loop (lines 224 to 248), on \<open>best_answer\<close>, \<open>highest_score\<close> and
  the state.
\<close>

definition answer_step ::
  "env \<Rightarrow> string \<Rightarrow> nat \<Rightarrow> nat \<Rightarrow> string \<Rightarrow> string \<times> real \<times> app
     \<Rightarrow> exn \<times> app + string \<times> real \<times> app" where
  "answer_step env question n i chunk acc =
     (case acc of (best_answer, highest_score, st) \<Rightarrow>
        (case progress env i n of
           Some e \<Rightarrow> Inl (e, st)
         | None \<Rightarrow>
             (case timer_start st of (timer, st1) \<Rightarrow>
                (case answer_question_from_context env question chunk of (elapsed, out) \<Rightarrow>
                   (let st2 = timer_elapse 30 elapsed timer st1 in
                      (case out of
                         Returns (answer, score) \<Rightarrow>
                           if score > highest_score \<and> length (strip answer) > 0
                           then Inr (answer, score, timer_cancel timer st2)
                           else Inr (best_answer, highest_score, timer_cancel timer st2)
                       | Raises TimeoutException \<Rightarrow>
                           Inr (best_answer, highest_score,
                                timer_cancel timer (notify (Warning_too_long_to_process (i + 1)) st2))
                       | Raises (Exception m) \<Rightarrow>
                           Inr (best_answer, highest_score,
                                notify (Error_processing_chunk (i + 1) (Exception m))
                                  (timer_cancel timer st2))))))))"

fun answer_loop ::
  "env \<Rightarrow> string \<Rightarrow> nat \<Rightarrow> nat \<Rightarrow> string list \<Rightarrow> string \<times> real \<times> app
     \<Rightarrow> exn \<times> app + string \<times> real \<times> app" where
  "answer_loop env question n i [] acc = Inr acc"
| "answer_loop env question n i (chunk # chunks) acc =
     (case answer_step env question n i chunk acc of
        Inl err \<Rightarrow> Inl err
      | Inr acc' \<Rightarrow> answer_loop env question n (i + 1) chunks acc')"

text \<open>Lines 199 to 259.\<close>

definition answer_question :: "env \<Rightarrow> string \<Rightarrow> app \<Rightarrow> string \<times> app" where
  "answer_question env question st =
     (if pdf_text st = [] then (''Please load a PDF first.'', st)
      else if strip question = [] then (''Please enter a valid question.'', st)
      else
        (case split_text env (pdf_text st) 1000 100 st of (chunks, st1) \<Rightarrow>
           if chunks = []
           then (''Unable to extract meaningful text from the PDF to answer questions.'', st1)
           else
             (case answer_loop env question (length chunks) 0 chunks ([], 0, st1) of
                Inl (e, st2) \<Rightarrow>
                  (''An error occurred while processing your question.'',
                   notify (Error_in_question_answering e) st2)
              | Inr (best_answer, highest_score, st2) \<Rightarrow>
                  if best_answer = []
                  then (''I couldn't find an answer to that question in the document.'', st2)
                  else (best_answer @ '' (Confidence: '' @ format_2f env highest_score @ '')'', st2))))"

section \<open>Notions used in the statements and in the invariants\<close>

text \<open>
  The trailing at most \<open>overlap\<close> characters of a string: the slice
  \<open>s[max(0, len(s) - overlap):]\<close> of line 285.
\<close>

definition tail_overlap :: "int \<Rightarrow> string \<Rightarrow> string" where
  "tail_overlap overlap s = slice_from (max 0 (int (length s) - overlap)) s"

text \<open>The chunks that the loop and line 288 produce from a given buffer onwards.\<close>

definition chunks_from :: "int \<Rightarrow> int \<Rightarrow> string \<Rightarrow> string list \<Rightarrow> string list" where
  "chunks_from max_length overlap current_chunk sentences =
     (case split_loop max_length overlap ([], current_chunk) sentences of (chunks, c) \<Rightarrow>
        if strip c \<noteq> [] then chunks @ [strip c] else chunks)"

text \<open>A string that is not empty and does not end in whitespace.\<close>

definition ends_clean :: "string \<Rightarrow> bool" where
  "ends_clean s = (s \<noteq> [] \<and> \<not> isspace_char (last s))"

text \<open>
  The overlap between a chunk and the next one: the tail of the first, without its
  leading whitespace, starts the second.
\<close>

definition overlaps :: "int \<Rightarrow> string \<Rightarrow> string \<Rightarrow> bool" where
  "overlaps overlap c d = prefix (lstrip (tail_overlap overlap c)) d"

text \<open>
  The bound on a buffer and on the chunk it gives: within \<open>max_length + overlap + 1\<close>,
  or a sentence of \<open>S\<close> longer than \<open>max_length\<close> after at most \<open>overlap\<close>
  characters and the separating space.
\<close>

definition buffer_ok :: "int \<Rightarrow> int \<Rightarrow> string set \<Rightarrow> string \<Rightarrow> bool" where
  "buffer_ok max_length overlap S x =
     (int (length x) \<le> max_length + overlap + 1 \<or>
      (\<exists>s\<in>S. max_length < int (length s) \<and>
         (\<exists>t. int (length t) \<le> overlap \<and> x = t @ '' '' @ s)))"

definition chunk_ok :: "int \<Rightarrow> int \<Rightarrow> string set \<Rightarrow> string \<Rightarrow> bool" where
  "chunk_ok max_length overlap S c =
     (int (length c) \<le> max_length + overlap + 1 \<or>
      (\<exists>s\<in>S. max_length < int (length s) \<and>
         (\<exists>t. int (length t) \<le> overlap \<and> c = strip (t @ '' '' @ s))))"

text \<open>
  With no overlap every buffer but the first starts with the separating space, and a
  sentence longer than \<open>max_length\<close> is alone in its buffer.
\<close>

definition buffer_ok0 :: "int \<Rightarrow> string set \<Rightarrow> string \<Rightarrow> bool" where
  "buffer_ok0 max_length S x =
     (x = [] \<or> (isspace_char (hd x) \<and> int (length x) \<le> max_length + 1) \<or>
      (\<exists>s\<in>S. max_length < int (length s) \<and> x = '' '' @ s))"

definition chunk_ok0 :: "int \<Rightarrow> string set \<Rightarrow> string \<Rightarrow> bool" where
  "chunk_ok0 max_length S c =
     (int (length c) \<le> max_length \<or>
      (\<exists>s\<in>S. max_length < int (length s) \<and> c = strip ('' '' @ s)))"

text \<open>
  A sentence that is not empty and neither starts nor ends with whitespace, and where
  it is after some iterations: whole in a chunk, or whole in the buffer.
\<close>

definition clean :: "string \<Rightarrow> bool" where
  "clean s = (s \<noteq> [] \<and> \<not> isspace_char (hd s) \<and> \<not> isspace_char (last s))"

definition covered :: "string list \<times> string \<Rightarrow> string \<Rightarrow> bool" where
  "covered acc s = ((\<exists>c\<in>set (fst acc). sublist s c) \<or> sublist s (snd acc))"

text \<open>
  The summaries that the summarization calls return for the chunks of at least 100
  characters, in chunk order: a chunk whose call raises contributes none.
\<close>

definition collected_summaries :: "env \<Rightarrow> string list \<Rightarrow> string list" where
  "collected_summaries env chunks =
     concat (map (\<lambda>c. case snd (summarize_text env c) of
                         Returns v \<Rightarrow> [v]
                       | Raises e \<Rightarrow> [])
               (filter (\<lambda>c. \<not> length c < 100) chunks))"

text \<open>The pairs of answer and score that the question answering calls return, in chunk order.\<close>

definition returned_answers :: "env \<Rightarrow> string \<Rightarrow> string list \<Rightarrow> (string \<times> real) list" where
  "returned_answers env question chunks =
     concat (map (\<lambda>c. case snd (answer_question_from_context env question c) of
                         Returns r \<Rightarrow> [r]
                       | Raises e \<Rightarrow> []) chunks)"

text \<open>The update of the best pair by one returned pair (line 235).\<close>

definition best_step :: "string \<times> real \<Rightarrow> string \<times> real \<Rightarrow> string \<times> real" where
  "best_step best r = (if snd r > snd best \<and> length (strip (fst r)) > 0 then r else best)"

text \<open>
  What folding \<open>best_step\<close> over \<open>rs\<close> keeps: the start, when no answer that is not
  blank scores above it, or else the first of the highest scored answers that are not
  blank.
\<close>

definition kept :: "string \<times> real \<Rightarrow> (string \<times> real) list \<Rightarrow> string \<times> real \<Rightarrow> bool" where
  "kept start rs R =
     ((R = start \<and> (\<forall>j<length rs. strip (fst (rs ! j)) \<noteq> [] \<longrightarrow> snd (rs ! j) \<le> snd start))
      \<or> (\<exists>k<length rs. R = rs ! k \<and> strip (fst (rs ! k)) \<noteq> [] \<and> snd start < snd (rs ! k)
            \<and> (\<forall>j<length rs. strip (fst (rs ! j)) \<noteq> [] \<longrightarrow> snd (rs ! j) \<le> snd (rs ! k))
            \<and> (\<forall>j<k. strip (fst (rs ! j)) \<noteq> [] \<longrightarrow> snd (rs ! j) < snd (rs ! k))))"

text \<open>No timer is waiting to fire.\<close>

definition disarmed :: "app \<Rightarrow> bool" where
  "disarmed st = list_all (\<lambda>t. t \<noteq> Armed) (timers st)"

section \<open>Example inputs\<close>

text \<open>
  A tokenizer that yields the given sentences, model calls that take one second, a
  display that never raises.
\<close>

definition example_env ::
  "string list \<Rightarrow> (string \<Rightarrow> string outcome) \<Rightarrow> (string \<Rightarrow> (string \<times> real) outcome) \<Rightarrow> env" where
  "example_env sentences summarizer reader =
     \<lparr>sent_tokenize = (\<lambda>t. Inr sentences),
      summarize_text = (\<lambda>c. (1, summarizer c)),
      answer_question_from_context = (\<lambda>q c. (1, reader c)),
      progress = (\<lambda>i n. None),
      format_2f = (\<lambda>r. if r = 9 / 10 then ''0.90'' else ''0.00'')\<rparr>"

definition example_app :: "string list \<Rightarrow> app" where
  "example_app sentences =
     \<lparr>pdf_text = join '' '' sentences, summary = ''old'', notifications = [], timers = []\<rparr>"

text \<open>Three sentences of 600 characters: no two of them fit in one chunk.\<close>

definition three_sentences :: "string list" where
  "three_sentences = [replicate 600 CHR ''a'', replicate 600 CHR ''b'', replicate 600 CHR ''c'']"

text \<open>Confidences 0.3, 0.9 and 0.5 for the chunks that end in a, in b and in c.\<close>

definition three_scores :: "string \<Rightarrow> (string \<times> real) outcome" where
  "three_scores c =
     Returns (if last c = CHR ''a'' then (''A'', 3 / 10)
              else if last c = CHR ''b'' then (''B'', 9 / 10)
              else (''C'', 1 / 2))"

text \<open>With \<open>max_length = 500\<close> and \<open>overlap = 50\<close> the second chunk has 57 characters.\<close>

definition short_middle :: "string list" where
  "short_middle = [replicate 600 CHR ''a'', ''Short.'', replicate 600 CHR ''c'']"

definition by_last :: "string \<Rightarrow> string outcome" where
  "by_last c =
     (if last c = CHR ''a'' then Returns ''first''
      else if last c = CHR ''c'' then Returns ''third''
      else Returns ''short'')"

section \<open>The chunker: lengths\<close>

lemma length_lstrip_le: "length (lstrip s) \<le> length s"
  unfolding lstrip_def by (rule length_dropWhile_le)

lemma length_rstrip_le: "length (rstrip s) \<le> length s"
  unfolding rstrip_def using length_dropWhile_le [of isspace_char "rev s"] by simp

lemma length_strip_le: "length (strip s) \<le> length s"
  unfolding strip_def using length_rstrip_le [of "lstrip s"] length_lstrip_le [of s] by linarith

lemma length_slice_from_overlap:
  "0 \<le> overlap \<Longrightarrow> int (length (slice_from (max 0 (int (length cur) - overlap)) cur)) \<le> overlap"
  unfolding slice_from_def by simp

lemma buffer_ok_strip: "buffer_ok m ov S x \<Longrightarrow> chunk_ok m ov S (strip x)"
proof -
  assume "buffer_ok m ov S x"
  then have "int (length x) \<le> m + ov + 1 \<or>
      (\<exists>s\<in>S. m < int (length s) \<and> (\<exists>t. int (length t) \<le> ov \<and> x = t @ '' '' @ s))"
    by (simp add: buffer_ok_def)
  then show ?thesis
  proof
    assume "int (length x) \<le> m + ov + 1"
    with length_strip_le [of x] have "int (length (strip x)) \<le> m + ov + 1" by linarith
    then show ?thesis by (simp add: chunk_ok_def)
  next
    assume "\<exists>s\<in>S. m < int (length s) \<and> (\<exists>t. int (length t) \<le> ov \<and> x = t @ '' '' @ s)"
    then show ?thesis unfolding chunk_ok_def by blast
  qed
qed

lemma split_step_buffer_ok:
  assumes "0 \<le> overlap" "sentence \<in> S" "buffer_ok max_length overlap S cur"
    and "\<forall>c\<in>set chunks. chunk_ok max_length overlap S c"
    and "split_step max_length overlap (chunks, cur) sentence = (chunks', cur')"
  shows "buffer_ok max_length overlap S cur' \<and> (\<forall>c\<in>set chunks'. chunk_ok max_length overlap S c)"
proof (cases "int (length cur) + int (length sentence) \<le> max_length")
  case True
  with assms(5) have "cur' = cur @ '' '' @ sentence" "chunks' = chunks"
    by (auto simp: split_step_def)
  with True assms(1,4) show ?thesis by (simp add: buffer_ok_def)
next
  case False
  let ?t = "slice_from (max 0 (int (length cur) - overlap)) cur"
  have t: "int (length ?t) \<le> overlap"
    using assms(1) by (rule length_slice_from_overlap)
  from False assms(5) have c': "cur' = ?t @ '' '' @ sentence"
    and ch: "chunks' = (if strip cur \<noteq> [] then chunks @ [strip cur] else chunks)"
    by (auto simp: split_step_def Let_def)
  have "buffer_ok max_length overlap S cur'"
  proof (cases "max_length < int (length sentence)")
    case True
    with assms(2) t c' show ?thesis unfolding buffer_ok_def by blast
  next
    case False
    with t have "int (length cur') \<le> max_length + overlap + 1" unfolding c' by simp
    then show ?thesis by (simp add: buffer_ok_def)
  qed
  moreover have "\<forall>c\<in>set chunks'. chunk_ok max_length overlap S c"
    unfolding ch using buffer_ok_strip [OF assms(3)] assms(4) by auto
  ultimately show ?thesis by blast
qed

lemma split_loop_buffer_ok:
  assumes "0 \<le> overlap"
  shows "set sentences \<subseteq> S \<Longrightarrow> buffer_ok max_length overlap S cur \<Longrightarrow>
     \<forall>c\<in>set chunks. chunk_ok max_length overlap S c \<Longrightarrow>
     split_loop max_length overlap (chunks, cur) sentences = (chunks', cur') \<Longrightarrow>
     buffer_ok max_length overlap S cur' \<and> (\<forall>c\<in>set chunks'. chunk_ok max_length overlap S c)"
proof (induction sentences arbitrary: chunks cur)
  case Nil
  then show ?case by simp
next
  case (Cons s ss)
  obtain ch1 c1 where st: "split_step max_length overlap (chunks, cur) s = (ch1, c1)"
    by (cases "split_step max_length overlap (chunks, cur) s")
  have "s \<in> S" using Cons.prems(1) by simp
  from split_step_buffer_ok [OF assms this Cons.prems(2) Cons.prems(3) st]
  have b: "buffer_ok max_length overlap S c1" "\<forall>c\<in>set ch1. chunk_ok max_length overlap S c"
    by simp_all
  from Cons.prems(4) st have "split_loop max_length overlap (ch1, c1) ss = (chunks', cur')" by simp
  with Cons.IH [of c1 ch1] b Cons.prems(1) show ?case by simp
qed

lemma chunk_sentences_chunk_ok:
  assumes "0 < max_length" "0 \<le> overlap"
  shows "\<forall>c\<in>set (chunk_sentences max_length overlap sentences). chunk_ok max_length overlap (set sentences) c"
proof -
  obtain chunks cur where l: "split_loop max_length overlap ([], []) sentences = (chunks, cur)"
    by (cases "split_loop max_length overlap ([], []) sentences")
  have w0: "buffer_ok max_length overlap (set sentences) []"
    using assms by (simp add: buffer_ok_def)
  have "buffer_ok max_length overlap (set sentences) cur \<and> (\<forall>c\<in>set chunks. chunk_ok max_length overlap (set sentences) c)"
    using split_loop_buffer_ok [OF assms(2) subset_refl w0 _ l] by simp
  then show ?thesis
    unfolding chunk_sentences_def l using buffer_ok_strip by auto
qed

text \<open>The same with no overlap.\<close>

lemma isspace_char_space: "isspace_char CHR '' ''"
  by (simp add: isspace_char_def)

lemma length_strip_leading_space:
  assumes "x \<noteq> []" "isspace_char (hd x)"
  shows "length (strip x) < length x"
proof -
  from assms obtain a y where x: "x = a # y" "isspace_char a" by (cases x) auto
  have "length (lstrip x) \<le> length y"
    unfolding lstrip_def x using x(2) by (simp add: length_dropWhile_le)
  with length_rstrip_le [of "lstrip x"] show ?thesis
    unfolding strip_def x by simp
qed

lemma buffer_ok0_strip:
  assumes "0 \<le> m" and l: "buffer_ok0 m S x"
  shows "chunk_ok0 m S (strip x)"
proof -
  from l have "x = [] \<or> (isspace_char (hd x) \<and> int (length x) \<le> m + 1 \<and> x \<noteq> []) \<or>
      (\<exists>s\<in>S. m < int (length s) \<and> x = '' '' @ s)"
    unfolding buffer_ok0_def by blast
  then show ?thesis
  proof (elim disjE)
    assume "x = []"
    with assms(1) show ?thesis by (simp add: chunk_ok0_def strip_def lstrip_def rstrip_def)
  next
    assume a: "isspace_char (hd x) \<and> int (length x) \<le> m + 1 \<and> x \<noteq> []"
    then have "length (strip x) < length x" using length_strip_leading_space by blast
    with a show ?thesis by (simp add: chunk_ok0_def)
  next
    assume "\<exists>s\<in>S. m < int (length s) \<and> x = '' '' @ s"
    then show ?thesis unfolding chunk_ok0_def by blast
  qed
qed

lemma split_step_buffer_ok0:
  assumes "0 \<le> m" "sentence \<in> S" "buffer_ok0 m S cur"
    and "\<forall>c\<in>set chunks. chunk_ok0 m S c"
    and "split_step m 0 (chunks, cur) sentence = (chunks', cur')"
  shows "buffer_ok0 m S cur' \<and> (\<forall>c\<in>set chunks'. chunk_ok0 m S c)"
proof (cases "int (length cur) + int (length sentence) \<le> m")
  case True
  with assms(5) have c': "cur' = cur @ '' '' @ sentence" and ch: "chunks' = chunks"
    by (auto simp: split_step_def)
  have hd: "cur = [] \<or> isspace_char (hd cur)"
    using assms(3) unfolding buffer_ok0_def by (auto simp: isspace_char_space)
  have "buffer_ok0 m S cur'"
  proof (cases "cur = []")
    case True
    with c' \<open>int (length cur) + int (length sentence) \<le> m\<close> show ?thesis
      by (simp add: buffer_ok0_def isspace_char_space)
  next
    case False
    with hd have "isspace_char (hd cur)" by simp
    with False c' True show ?thesis by (simp add: buffer_ok0_def)
  qed
  with ch assms(4) show ?thesis by simp
next
  case False
  from False assms(5) have c': "cur' = '' '' @ sentence"
    and ch: "chunks' = (if strip cur \<noteq> [] then chunks @ [strip cur] else chunks)"
    by (auto simp: split_step_def Let_def slice_from_def)
  have "buffer_ok0 m S cur'"
  proof (cases "m < int (length sentence)")
    case True
    with assms(2) c' show ?thesis unfolding buffer_ok0_def by blast
  next
    case False
    with c' show ?thesis by (simp add: buffer_ok0_def isspace_char_space)
  qed
  moreover have "\<forall>c\<in>set chunks'. chunk_ok0 m S c"
    unfolding ch using buffer_ok0_strip [OF assms(1) assms(3)] assms(4) by auto
  ultimately show ?thesis by blast
qed

lemma split_loop_buffer_ok0:
  assumes "0 \<le> m"
  shows "set sentences \<subseteq> S \<Longrightarrow> buffer_ok0 m S cur \<Longrightarrow>
     \<forall>c\<in>set chunks. chunk_ok0 m S c \<Longrightarrow>
     split_loop m 0 (chunks, cur) sentences = (chunks', cur') \<Longrightarrow>
     buffer_ok0 m S cur' \<and> (\<forall>c\<in>set chunks'. chunk_ok0 m S c)"
proof (induction sentences arbitrary: chunks cur)
  case Nil
  then show ?case by simp
next
  case (Cons s ss)
  obtain ch1 c1 where st: "split_step m 0 (chunks, cur) s = (ch1, c1)"
    by (cases "split_step m 0 (chunks, cur) s")
  have "s \<in> S" using Cons.prems(1) by simp
  from split_step_buffer_ok0 [OF assms this Cons.prems(2) Cons.prems(3) st]
  have b: "buffer_ok0 m S c1" "\<forall>c\<in>set ch1. chunk_ok0 m S c"
    by simp_all
  from Cons.prems(4) st have "split_loop m 0 (ch1, c1) ss = (chunks', cur')" by simp
  with Cons.IH [of c1 ch1] b Cons.prems(1) show ?case by simp
qed

lemma chunk_sentences_chunk_ok0:
  assumes "0 < m"
  shows "\<forall>c\<in>set (chunk_sentences m 0 sentences). chunk_ok0 m (set sentences) c"
proof -
  obtain chunks cur where l: "split_loop m 0 ([], []) sentences = (chunks, cur)"
    by (cases "split_loop m 0 ([], []) sentences")
  have m0: "0 \<le> m" using assms by simp
  have "buffer_ok0 m (set sentences) cur \<and> (\<forall>c\<in>set chunks. chunk_ok0 m (set sentences) c)"
    using split_loop_buffer_ok0 [OF m0 subset_refl _ _ l] by (simp add: buffer_ok0_def)
  then show ?thesis
    unfolding chunk_sentences_def l using buffer_ok0_strip [OF m0] by auto
qed

lemma length_strip_tail:
  "int (length t) \<le> ov \<Longrightarrow> int (length (strip (t @ '' '' @ s))) \<le> int (length s) + ov + 1"
  using length_strip_le [of "t @ '' '' @ s"] by simp

lemma length_strip_space: "int (length (strip ('' '' @ s))) \<le> int (length s)"
  using length_strip_leading_space [of "'' '' @ s"] by (simp add: isspace_char_space)

section \<open>The chunker: overlap\<close>

lemma chunk_sentences_chunks_from: "chunk_sentences m ov ss = chunks_from m ov [] ss"
  by (simp add: chunk_sentences_def chunks_from_def)

lemma split_step_acc:
  "split_step m ov (cs, cur) s =
     (cs @ fst (split_step m ov ([], cur) s), snd (split_step m ov ([], cur) s))"
  by (simp add: split_step_def Let_def)

lemma split_loop_acc:
  "split_loop m ov (cs, cur) ss =
     (cs @ fst (split_loop m ov ([], cur) ss), snd (split_loop m ov ([], cur) ss))"
proof (induction ss arbitrary: cs cur)
  case Nil
  show ?case by simp
next
  case (Cons s ss)
  obtain e c1 where st: "split_step m ov ([], cur) s = (e, c1)"
    by (cases "split_step m ov ([], cur) s")
  have st': "split_step m ov (cs, cur) s = (cs @ e, c1)"
    using split_step_acc [of m ov cs cur s] st by simp
  show ?case
    using Cons.IH [of "cs @ e" c1] Cons.IH [of e c1] st st' by simp
qed

lemma chunks_from_Nil:
  "chunks_from m ov cur [] = (if strip cur \<noteq> [] then [strip cur] else [])"
  by (simp add: chunks_from_def)

lemma chunks_from_fits:
  "int (length cur) + int (length s) \<le> m \<Longrightarrow>
   chunks_from m ov cur (s # ss) = chunks_from m ov (cur @ '' '' @ s) ss"
  by (simp add: chunks_from_def split_step_def)

lemma chunks_from_close:
  assumes "\<not> int (length cur) + int (length s) \<le> m"
  shows "chunks_from m ov cur (s # ss) =
     (if strip cur \<noteq> [] then [strip cur] else []) @
     chunks_from m ov (tail_overlap ov cur @ '' '' @ s) ss"
proof -
  let ?b = "tail_overlap ov cur @ '' '' @ s"
  obtain e c1 where l: "split_loop m ov ([], ?b) ss = (e, c1)"
    by (cases "split_loop m ov ([], ?b) ss")
  have st: "split_step m ov ([], cur) s = ((if strip cur \<noteq> [] then [strip cur] else []), ?b)"
    using assms by (simp add: split_step_def Let_def tail_overlap_def)
  have "split_loop m ov ([], cur) (s # ss) = ((if strip cur \<noteq> [] then [strip cur] else []) @ e, c1)"
    using st split_loop_acc [of m ov "if strip cur \<noteq> [] then [strip cur] else []" ?b ss] l by simp
  then show ?thesis
    unfolding chunks_from_def l by simp
qed

lemma ends_clean_append: "ends_clean s \<Longrightarrow> ends_clean (b @ '' '' @ s)"
  by (simp add: ends_clean_def)

lemma lstrip_nonempty: "ends_clean b \<Longrightarrow> lstrip b \<noteq> []"
  unfolding ends_clean_def lstrip_def
  by (metis dropWhile_eq_Nil_conv last_in_set)

lemma lstrip_append: "lstrip a \<noteq> [] \<Longrightarrow> lstrip (a @ b) = lstrip a @ b"
  unfolding lstrip_def by (auto simp: dropWhile_append dropWhile_eq_Nil_conv)

lemma ends_clean_lstrip: "ends_clean b \<Longrightarrow> ends_clean (lstrip b)"
proof -
  assume a: "ends_clean b"
  then have n: "lstrip b \<noteq> []" by (rule lstrip_nonempty)
  have "b = takeWhile isspace_char b @ lstrip b" by (simp add: lstrip_def)
  with n have "last b = last (lstrip b)" by (metis last_appendR)
  with a n show ?thesis by (simp add: ends_clean_def)
qed

lemma rstrip_ends_clean: "ends_clean b \<Longrightarrow> rstrip b = b"
  unfolding ends_clean_def rstrip_def
  by (cases b rule: rev_cases) auto

lemma strip_ends_clean: "ends_clean b \<Longrightarrow> strip b = lstrip b"
  unfolding strip_def by (rule rstrip_ends_clean) (rule ends_clean_lstrip)

lemma ends_clean_tail:
  assumes "ends_clean b" "0 < ov"
  shows "ends_clean (tail_overlap ov b)"
proof -
  let ?n = "nat (max 0 (int (length b) - ov))"
  from assms have "0 < length b" by (simp add: ends_clean_def)
  with assms(2) have lt: "?n < length b" by linarith
  then have "drop ?n b \<noteq> []" by simp
  moreover have "last (drop ?n b) = last b" using lt by (simp add: last_drop)
  ultimately show ?thesis
    using assms(1) by (simp add: ends_clean_def tail_overlap_def slice_from_def)
qed

lemma drop_spaces_lstrip:
  assumes "list_all isspace_char w"
  shows "lstrip (drop (length (w @ r) - k) (w @ r)) = lstrip (drop (length r - k) r)"
proof (cases "k \<le> length r")
  case True
  then show ?thesis by simp
next
  case False
  then have "length (w @ r) - k \<le> length w" by simp
  then have "drop (length (w @ r) - k) (w @ r) = drop (length (w @ r) - k) w @ r" by simp
  moreover have "\<forall>x\<in>set (drop (length (w @ r) - k) w). isspace_char x"
    using assms by (meson in_set_dropD list_all_iff)
  ultimately have "lstrip (drop (length (w @ r) - k) (w @ r)) = lstrip r"
    by (simp add: lstrip_def dropWhile_append)
  with False show ?thesis by simp
qed

lemma tail_overlap_drop:
  "0 \<le> ov \<Longrightarrow> tail_overlap ov s = drop (length s - nat ov) s"
  unfolding tail_overlap_def slice_from_def
  by (rule arg_cong [where f = "\<lambda>n. drop n s"]) linarith

lemma lstrip_tail_lstrip:
  assumes "0 \<le> ov"
  shows "lstrip (tail_overlap ov (lstrip b)) = lstrip (tail_overlap ov b)"
proof -
  have b: "b = takeWhile isspace_char b @ lstrip b" by (simp add: lstrip_def)
  have w: "list_all isspace_char (takeWhile isspace_char b)"
    by (simp add: list_all_iff) (meson set_takeWhileD)
  have "lstrip (tail_overlap ov b) =
        lstrip (drop (length (takeWhile isspace_char b @ lstrip b) - nat ov) (takeWhile isspace_char b @ lstrip b))"
    using b tail_overlap_drop [OF assms, of b] by simp
  also have "\<dots> = lstrip (drop (length (lstrip b) - nat ov) (lstrip b))"
    using w by (rule drop_spaces_lstrip)
  also have "\<dots> = lstrip (tail_overlap ov (lstrip b))"
    using tail_overlap_drop [OF assms, of "lstrip b"] by simp
  finally show ?thesis by simp
qed

lemma chunks_from_overlaps:
  assumes "0 < ov"
  shows "ends_clean b \<Longrightarrow> \<forall>s\<in>set ss. ends_clean s \<Longrightarrow>
    chunks_from m ov b ss \<noteq> [] \<and> prefix (lstrip b) (hd (chunks_from m ov b ss)) \<and>
    successively (overlaps ov) (chunks_from m ov b ss)"
proof (induction ss arbitrary: b)
  case Nil
  then show ?case
    using lstrip_nonempty [of b] by (simp add: chunks_from_Nil strip_ends_clean)
next
  case (Cons s ss)
  have s: "ends_clean s" and ss: "\<forall>s\<in>set ss. ends_clean s" using Cons.prems(2) by simp_all
  show ?case
  proof (cases "int (length b) + int (length s) \<le> m")
    case True
    let ?b = "b @ '' '' @ s"
    have e: "chunks_from m ov b (s # ss) = chunks_from m ov ?b ss"
      using True by (rule chunks_from_fits)
    have ih: "chunks_from m ov ?b ss \<noteq> [] \<and> prefix (lstrip ?b) (hd (chunks_from m ov ?b ss)) \<and>
      successively (overlaps ov) (chunks_from m ov ?b ss)"
      using Cons.IH [OF ends_clean_append [OF s] ss] .
    have "lstrip ?b = lstrip b @ '' '' @ s"
      using lstrip_append [OF lstrip_nonempty [OF Cons.prems(1)]] .
    then have "prefix (lstrip b) (lstrip ?b)" by simp
    with ih have "prefix (lstrip b) (hd (chunks_from m ov ?b ss))"
      using prefix_order.order_trans by blast
    with ih e show ?thesis by simp
  next
    case False
    let ?t = "tail_overlap ov b"
    let ?b = "?t @ '' '' @ s"
    have sb: "strip b = lstrip b" using Cons.prems(1) by (rule strip_ends_clean)
    have nb: "lstrip b \<noteq> []" using Cons.prems(1) by (rule lstrip_nonempty)
    have e: "chunks_from m ov b (s # ss) = lstrip b # chunks_from m ov ?b ss"
      using chunks_from_close [OF False, of ov ss] sb nb by simp
    have ih: "chunks_from m ov ?b ss \<noteq> [] \<and> prefix (lstrip ?b) (hd (chunks_from m ov ?b ss)) \<and>
      successively (overlaps ov) (chunks_from m ov ?b ss)"
      using Cons.IH [OF ends_clean_append [OF s] ss] .
    have t: "ends_clean ?t" using Cons.prems(1) assms by (rule ends_clean_tail)
    have "lstrip ?b = lstrip ?t @ '' '' @ s"
      using lstrip_append [OF lstrip_nonempty [OF t]] .
    then have "prefix (lstrip ?t) (lstrip ?b)" by simp
    with ih have "prefix (lstrip ?t) (hd (chunks_from m ov ?b ss))"
      using prefix_order.order_trans by blast
    moreover have "lstrip (tail_overlap ov (lstrip b)) = lstrip ?t"
      using assms lstrip_tail_lstrip [of ov b] by simp
    ultimately have o: "overlaps ov (lstrip b) (hd (chunks_from m ov ?b ss))"
      by (simp add: overlaps_def)
    show ?thesis
      unfolding e using ih o by (simp add: successively_Cons)
  qed
qed

lemma chunks_from_empty_buffer:
  "chunks_from m ov [] (s # ss) = chunks_from m ov ('' '' @ s) ss"
proof (cases "int (length ([]::string)) + int (length s) \<le> m")
  case True
  then show ?thesis using chunks_from_fits [of "[]" s m ov ss] by simp
next
  case False
  then show ?thesis using chunks_from_close [of "[]" s m ov ss]
    by (simp add: strip_def lstrip_def rstrip_def tail_overlap_def slice_from_def)
qed

lemma successively_nth:
  "successively P xs \<Longrightarrow> Suc i < length xs \<Longrightarrow> P (xs ! i) (xs ! Suc i)"
proof (induction xs arbitrary: i)
  case Nil
  then show ?case by simp
next
  case (Cons x xs)
  show ?case
  proof (cases i)
    case 0
    with Cons.prems show ?thesis by (cases xs) auto
  next
    case (Suc j)
    with Cons.prems have "successively P xs" "Suc j < length xs"
      by (auto simp: successively_Cons)
    with Cons.IH [of j] Suc show ?thesis by simp
  qed
qed

section \<open>The chunker: sentences stay whole\<close>

lemma lstrip_keeps:
  assumes "clean s"
  shows "\<exists>a'. lstrip (a @ s @ b) = a' @ s @ b"
proof (cases "\<forall>x\<in>set a. isspace_char x")
  case True
  from assms obtain h t where s: "s = h # t" "\<not> isspace_char h"
    by (cases s) (auto simp: clean_def)
  from True have "lstrip (a @ s @ b) = dropWhile isspace_char (s @ b)"
    by (simp add: lstrip_def dropWhile_append)
  also have "\<dots> = s @ b" using s by simp
  finally have "lstrip (a @ s @ b) = [] @ s @ b" by simp
  then show ?thesis by blast
next
  case False
  then obtain x where "x \<in> set a" "\<not> isspace_char x" by blast
  then have "lstrip (a @ s @ b) = dropWhile isspace_char a @ s @ b"
    unfolding lstrip_def by (rule dropWhile_append1)
  then show ?thesis by blast
qed

lemma rstrip_keeps:
  assumes "clean s"
  shows "\<exists>b'. rstrip (a @ s @ b) = a @ s @ b'"
proof (cases "\<forall>x\<in>set b. isspace_char x")
  case True
  from assms have n: "s \<noteq> []" and l: "\<not> isspace_char (last s)" by (simp_all add: clean_def)
  then have "rev s = rev (butlast s @ [last s])" by simp
  then have h: "rev s @ rev a = last s # (rev (butlast s) @ rev a)" by simp
  from True have "dropWhile isspace_char (rev b @ rev s @ rev a) = dropWhile isspace_char (rev s @ rev a)"
    by (simp add: dropWhile_append)
  also have "\<dots> = rev s @ rev a" unfolding h using l by simp
  finally have "rstrip (a @ s @ b) = a @ s @ []" by (simp add: rstrip_def)
  then show ?thesis by blast
next
  case False
  then obtain x where "x \<in> set (rev b)" "\<not> isspace_char x" by auto
  then have "dropWhile isspace_char (rev b @ rev s @ rev a) = dropWhile isspace_char (rev b) @ rev s @ rev a"
    by (rule dropWhile_append1)
  then have "rstrip (a @ s @ b) = a @ s @ rev (dropWhile isspace_char (rev b))"
    by (simp add: rstrip_def)
  then show ?thesis by blast
qed

lemma strip_keeps:
  assumes "clean s" "sublist s x"
  shows "sublist s (strip x)"
proof -
  from assms(2) obtain a b where x: "x = a @ s @ b" by (auto simp: sublist_def)
  from lstrip_keeps [OF assms(1), of a b] obtain a' where l: "lstrip x = a' @ s @ b"
    unfolding x by blast
  from rstrip_keeps [OF assms(1), of a' b] obtain b' where "rstrip (a' @ s @ b) = a' @ s @ b'"
    by blast
  with l have "strip x = a' @ s @ b'" by (simp add: strip_def)
  then show ?thesis unfolding sublist_def by blast
qed

lemma strip_keeps_nonempty:
  assumes "clean s" "sublist s x"
  shows "strip x \<noteq> []"
proof -
  from strip_keeps [OF assms] obtain a b where "strip x = a @ s @ b" by (auto simp: sublist_def)
  with assms(1) show ?thesis by (simp add: clean_def)
qed

lemma split_step_covered:
  assumes "\<forall>s\<in>P. clean s \<longrightarrow> covered acc s"
  shows "\<forall>s\<in>insert sentence P. clean s \<longrightarrow> covered (split_step m ov acc sentence) s"
proof (intro ballI impI)
  fix s assume s: "s \<in> insert sentence P" and c: "clean s"
  obtain chunks cur where acc: "acc = (chunks, cur)" by (cases acc)
  from assms have inv: "\<forall>s\<in>P. clean s \<longrightarrow> (\<exists>c\<in>set chunks. sublist s c) \<or> sublist s cur"
    by (simp add: covered_def acc)
  have "covered (split_step m ov (chunks, cur) sentence) s"
  proof (cases "int (length cur) + int (length sentence) \<le> m")
    case True
    then have st: "split_step m ov (chunks, cur) sentence = (chunks, cur @ '' '' @ sentence)"
      by (simp add: split_step_def)
    show ?thesis
    proof (cases "s = sentence")
      case True
      have "sublist sentence (cur @ '' '' @ sentence)"
        unfolding sublist_def by (intro exI [of _ "cur @ '' ''"] exI [of _ "[]"]) simp
      with True st show ?thesis by (simp add: covered_def)
    next
      case False
      with s have "s \<in> P" by simp
      with inv c have "(\<exists>c\<in>set chunks. sublist s c) \<or> sublist s cur" by blast
      moreover have "sublist s cur \<Longrightarrow> sublist s (cur @ '' '' @ sentence)"
        unfolding sublist_def by (metis append.assoc)
      ultimately show ?thesis
        unfolding st covered_def by auto
    qed
  next
    case False
    let ?chunks' = "if strip cur \<noteq> [] then chunks @ [strip cur] else chunks"
    let ?cur' = "slice_from (max 0 (int (length cur) - ov)) cur @ '' '' @ sentence"
    from False have st: "split_step m ov (chunks, cur) sentence = (?chunks', ?cur')"
      by (simp add: split_step_def Let_def)
    show ?thesis
    proof (cases "s = sentence")
      case True
      have "sublist sentence ?cur'"
        unfolding sublist_def
        by (intro exI [of _ "slice_from (max 0 (int (length cur) - ov)) cur @ '' ''"] exI [of _ "[]"]) simp
      with True st show ?thesis by (simp add: covered_def)
    next
      case False
      with s have "s \<in> P" by simp
      with inv c have "(\<exists>c\<in>set chunks. sublist s c) \<or> sublist s cur" by blast
      then show ?thesis
      proof
        assume "\<exists>c\<in>set chunks. sublist s c"
        then show ?thesis unfolding st covered_def by auto
      next
        assume "sublist s cur"
        from strip_keeps [OF c this] strip_keeps_nonempty [OF c this]
        show ?thesis unfolding st covered_def by auto
      qed
    qed
  qed
  then show "covered (split_step m ov acc sentence) s" by (simp add: acc)
qed

lemma split_loop_covered:
  "\<forall>s\<in>P. clean s \<longrightarrow> covered acc s \<Longrightarrow>
   \<forall>s\<in>P \<union> set sentences. clean s \<longrightarrow> covered (split_loop m ov acc sentences) s"
proof (induction sentences arbitrary: P acc)
  case Nil
  then show ?case by simp
next
  case (Cons x xs)
  from split_step_covered [OF Cons.prems, of x m ov]
  have "\<forall>s\<in>insert x P. clean s \<longrightarrow> covered (split_step m ov acc x) s" .
  from Cons.IH [OF this] show ?case by simp
qed

lemma chunk_sentences_covered:
  assumes "s \<in> set sentences" "clean s"
  shows "\<exists>c\<in>set (chunk_sentences m ov sentences). sublist s c"
proof -
  obtain chunks cur where l: "split_loop m ov ([], []) sentences = (chunks, cur)"
    by (cases "split_loop m ov ([], []) sentences")
  have "\<forall>s\<in>{}. clean s \<longrightarrow> covered ([], []) s" by simp
  from split_loop_covered [OF this, of sentences m ov] assms l
  have "(\<exists>c\<in>set chunks. sublist s c) \<or> sublist s cur" by (simp add: covered_def)
  then show ?thesis
  proof
    assume "\<exists>c\<in>set chunks. sublist s c"
    then show ?thesis unfolding chunk_sentences_def l by auto
  next
    assume "sublist s cur"
    from strip_keeps [OF assms(2) this] strip_keeps_nonempty [OF assms(2) this]
    show ?thesis unfolding chunk_sentences_def l by auto
  qed
qed

section \<open>Strings: blank and stripped\<close>

lemma strip_Nil [simp]: "strip [] = []"
  by (simp add: strip_def lstrip_def rstrip_def)

lemma strip_blank_iff: "strip s = [] \<longleftrightarrow> s = [] \<or> isspace s"
proof -
  have "rstrip (lstrip s) = [] \<longleftrightarrow> lstrip s = []"
    unfolding rstrip_def lstrip_def
    by (auto simp: dropWhile_eq_Nil_conv dest: set_dropWhileD)
       (metis dropWhile_eq_Nil_conv hd_dropWhile hd_in_set)
  then show ?thesis
    by (auto simp: strip_def isspace_def lstrip_def dropWhile_eq_Nil_conv list_all_iff)
qed

section \<open>The state outside the loops\<close>

lemma summary_timer [simp]:
  "summary (timer_cancel k st) = summary st"
  "summary (timer_elapse d e k st) = summary st"
  "summary (snd (timer_start st)) = summary st"
  "summary (notify m st) = summary st"
  by (simp_all add: timer_cancel_def timer_elapse_def timer_start_def notify_def)

lemma notifications_timer [simp]:
  "notifications (timer_cancel k st) = notifications st"
  "notifications (timer_elapse d e k st) = notifications st"
  "notifications (snd (timer_start st)) = notifications st"
  "notifications (notify m st) = notifications st @ [m]"
  by (simp_all add: timer_cancel_def timer_elapse_def timer_start_def notify_def)

lemma split_text_summary:
  "split_text env text m ov st = (chunks, st') \<Longrightarrow> summary st' = summary st"
  by (auto simp: split_text_def split: if_splits sum.splits)

lemma split_text_blank:
  "text = [] \<or> isspace text \<Longrightarrow> split_text env text m ov st = ([], st)"
  by (simp add: split_text_def)

section \<open>The loop of \<open>generate_summary\<close>\<close>

lemma summary_step_Inr:
  assumes "progress env i n = None"
  shows "\<exists>st'. summary_step env n i c (smr, st) = Inr (smr @ collected_summaries env [c], st')"
  using assms
  by (cases "summarize_text env c")
     (auto simp: summary_step_def collected_summaries_def timer_start_def Let_def
           split: outcome.splits exn.splits)

lemma collected_summaries_Cons:
  "collected_summaries env (c # cs) = collected_summaries env [c] @ collected_summaries env cs"
  by (simp add: collected_summaries_def)

lemma summary_loop_Inr:
  assumes "\<forall>j. progress env j n = None"
  shows "\<exists>st'. summary_loop env n i chunks (smr, st) = Inr (smr @ collected_summaries env chunks, st')"
proof (induction chunks arbitrary: i smr st)
  case Nil
  show ?case by (simp add: collected_summaries_def)
next
  case (Cons c cs)
  from assms have "progress env i n = None" by simp
  from summary_step_Inr [OF this, of c smr st]
  obtain s1 where s: "summary_step env n i c (smr, st) = Inr (smr @ collected_summaries env [c], s1)"
    by blast
  from Cons.IH [of "i + 1" "smr @ collected_summaries env [c]" s1]
  obtain s2 where "summary_loop env n (i + 1) cs (smr @ collected_summaries env [c], s1) =
      Inr ((smr @ collected_summaries env [c]) @ collected_summaries env cs, s2)" by blast
  with s show ?case
    by (simp add: collected_summaries_Cons [of env c cs])
qed


lemma summary_step_summary:
  "summary_step env n i c (smr, st) = Inl (e, st') \<Longrightarrow> summary st' = summary st"
  "summary_step env n i c (smr, st) = Inr (smr', st') \<Longrightarrow> summary st' = summary st"
  by (cases "summarize_text env c";
      auto simp: summary_step_def timer_start_def Let_def
           split: option.splits if_splits outcome.splits exn.splits)+

lemma summary_loop_summary:
  "(summary_loop env n i chunks (smr, st) = Inl (e, st') \<longrightarrow> summary st' = summary st) \<and>
   (summary_loop env n i chunks (smr, st) = Inr (smr', st') \<longrightarrow> summary st' = summary st)"
proof (induction chunks arbitrary: i smr st)
  case Nil
  show ?case by simp
next
  case (Cons c cs)
  show ?case
  proof (cases "summary_step env n i c (smr, st)")
    case (Inl err)
    then show ?thesis using summary_step_summary(1) [of env n i c smr st] by (cases err) auto
  next
    case (Inr acc)
    obtain s1 st1 where a: "acc = (s1, st1)" by (cases acc)
    from Inr a have "summary st1 = summary st" using summary_step_summary(2) by blast
    with Cons.IH [of "i + 1" s1 st1] Inr a show ?thesis by simp
  qed
qed



section \<open>The loop of \<open>answer_question\<close>\<close>

lemma returned_answers_Cons:
  "returned_answers env q (c # cs) = returned_answers env q [c] @ returned_answers env q cs"
  by (simp add: returned_answers_def)

lemma answer_step_Inr:
  assumes "progress env i n = None"
  shows "\<exists>st'. answer_step env q n i c (b, h, st) =
     Inr (fst (foldl best_step (b, h) (returned_answers env q [c])),
          snd (foldl best_step (b, h) (returned_answers env q [c])), st')"
  using assms
  by (cases "answer_question_from_context env q c")
     (auto simp: answer_step_def returned_answers_def best_step_def timer_start_def Let_def
           split: outcome.splits exn.splits)

lemma answer_loop_Inr:
  assumes "\<forall>j. progress env j n = None"
  shows "\<exists>st'. answer_loop env q n i chunks (b, h, st) =
     Inr (fst (foldl best_step (b, h) (returned_answers env q chunks)),
          snd (foldl best_step (b, h) (returned_answers env q chunks)), st')"
proof (induction chunks arbitrary: i b h st)
  case Nil
  show ?case by (simp add: returned_answers_def)
next
  case (Cons c cs)
  let ?R = "foldl best_step (b, h) (returned_answers env q [c])"
  from assms have "progress env i n = None" by simp
  from answer_step_Inr [OF this, of q c b h st]
  obtain s1 where s: "answer_step env q n i c (b, h, st) = Inr (fst ?R, snd ?R, s1)"
    by blast
  from Cons.IH [of "i + 1" "fst ?R" "snd ?R" s1]
  obtain s2 where "answer_loop env q n (i + 1) cs (fst ?R, snd ?R, s1) =
      Inr (fst (foldl best_step ?R (returned_answers env q cs)),
           snd (foldl best_step ?R (returned_answers env q cs)), s2)" by auto
  with s show ?case
    by (simp add: returned_answers_Cons [of env q c cs])
qed

lemma foldl_best_step_kept: "kept start rs (foldl best_step start rs)"
proof (induction rs rule: rev_induct)
  case Nil
  show ?case by (simp add: kept_def)
next
  case (snoc x rs)
  let ?R = "foldl best_step start rs"
  have f: "foldl best_step start (rs @ [x]) = best_step ?R x" by simp
  have nth_old: "\<And>j. j < length rs \<Longrightarrow> (rs @ [x]) ! j = rs ! j" by (simp add: nth_append)
  have nth_new: "(rs @ [x]) ! length rs = x" by simp
  have le: "snd start \<le> snd ?R" using snoc.IH by (auto simp: kept_def)
  have top: "\<forall>j<length rs. strip (fst (rs ! j)) \<noteq> [] \<longrightarrow> snd (rs ! j) \<le> snd ?R"
    using snoc.IH by (auto simp: kept_def)
  show ?case
  proof (cases "snd x > snd ?R \<and> length (strip (fst x)) > 0")
    case True
    then have b: "best_step ?R x = x" by (simp add: best_step_def)
    have "\<forall>j<length (rs @ [x]). strip (fst ((rs @ [x]) ! j)) \<noteq> [] \<longrightarrow> snd ((rs @ [x]) ! j) \<le> snd x"
    proof (intro allI impI)
      fix j assume j: "j < length (rs @ [x])" and n: "strip (fst ((rs @ [x]) ! j)) \<noteq> []"
      show "snd ((rs @ [x]) ! j) \<le> snd x"
      proof (cases "j < length rs")
        case True
        with n top nth_old [OF True] have "snd (rs ! j) \<le> snd ?R" by simp
        with True \<open>snd x > snd ?R \<and> length (strip (fst x)) > 0\<close> nth_old [OF True]
        show ?thesis by simp
      next
        case False
        with j have "j = length rs" by simp
        then show ?thesis by simp
      qed
    qed
    moreover have "\<forall>j<length rs. strip (fst ((rs @ [x]) ! j)) \<noteq> [] \<longrightarrow> snd ((rs @ [x]) ! j) < snd x"
    proof (intro allI impI)
      fix j assume j: "j < length rs" and n: "strip (fst ((rs @ [x]) ! j)) \<noteq> []"
      with top nth_old [OF j] have "snd (rs ! j) \<le> snd ?R" by simp
      with True nth_old [OF j] show "snd ((rs @ [x]) ! j) < snd x" by simp
    qed
    moreover have "snd start < snd x" using le True by simp
    moreover have "strip (fst x) \<noteq> []" using True by simp
    ultimately have "kept start (rs @ [x]) x"
      unfolding kept_def using nth_new
      by (intro disjI2 exI [of _ "length rs"]) simp
    with f b show ?thesis by simp
  next
    case False
    then have b: "best_step ?R x = ?R" unfolding best_step_def by (simp only: if_False)
    have x: "strip (fst x) \<noteq> [] \<longrightarrow> snd x \<le> snd ?R" using False by auto
    from snoc.IH have "kept start (rs @ [x]) ?R"
      unfolding kept_def
    proof (elim disjE exE conjE)
      assume r: "?R = start"
        and a: "\<forall>j<length rs. strip (fst (rs ! j)) \<noteq> [] \<longrightarrow> snd (rs ! j) \<le> snd start"
      have "\<forall>j<length (rs @ [x]). strip (fst ((rs @ [x]) ! j)) \<noteq> [] \<longrightarrow> snd ((rs @ [x]) ! j) \<le> snd start"
        using a x r by (auto simp: nth_append less_Suc_eq)
      with r show "(?R = start \<and> (\<forall>j<length (rs @ [x]). strip (fst ((rs @ [x]) ! j)) \<noteq> [] \<longrightarrow>
             snd ((rs @ [x]) ! j) \<le> snd start)) \<or>
        (\<exists>k<length (rs @ [x]). ?R = (rs @ [x]) ! k \<and> strip (fst ((rs @ [x]) ! k)) \<noteq> [] \<and>
            snd start < snd ((rs @ [x]) ! k) \<and>
            (\<forall>j<length (rs @ [x]). strip (fst ((rs @ [x]) ! j)) \<noteq> [] \<longrightarrow>
               snd ((rs @ [x]) ! j) \<le> snd ((rs @ [x]) ! k)) \<and>
            (\<forall>j<k. strip (fst ((rs @ [x]) ! j)) \<noteq> [] \<longrightarrow> snd ((rs @ [x]) ! j) < snd ((rs @ [x]) ! k)))"
        by blast
    next
      fix k
      assume k: "k < length rs" and r: "?R = rs ! k" and n: "strip (fst (rs ! k)) \<noteq> []"
        and s: "snd start < snd (rs ! k)"
        and a: "\<forall>j<length rs. strip (fst (rs ! j)) \<noteq> [] \<longrightarrow> snd (rs ! j) \<le> snd (rs ! k)"
        and e: "\<forall>j<k. strip (fst (rs ! j)) \<noteq> [] \<longrightarrow> snd (rs ! j) < snd (rs ! k)"
      have 1: "\<forall>j<length (rs @ [x]). strip (fst ((rs @ [x]) ! j)) \<noteq> [] \<longrightarrow>
               snd ((rs @ [x]) ! j) \<le> snd ((rs @ [x]) ! k)"
        using a x r k by (auto simp: nth_append less_Suc_eq)
      have 2: "\<forall>j<k. strip (fst ((rs @ [x]) ! j)) \<noteq> [] \<longrightarrow> snd ((rs @ [x]) ! j) < snd ((rs @ [x]) ! k)"
        using e k by (auto simp: nth_append)
      have 3: "?R = (rs @ [x]) ! k" "strip (fst ((rs @ [x]) ! k)) \<noteq> []" "snd start < snd ((rs @ [x]) ! k)"
        using r n s k by (simp_all add: nth_append)
      have 4: "k < length (rs @ [x])" using k by simp
      show "(?R = start \<and> (\<forall>j<length (rs @ [x]). strip (fst ((rs @ [x]) ! j)) \<noteq> [] \<longrightarrow>
             snd ((rs @ [x]) ! j) \<le> snd start)) \<or>
        (\<exists>k<length (rs @ [x]). ?R = (rs @ [x]) ! k \<and> strip (fst ((rs @ [x]) ! k)) \<noteq> [] \<and>
            snd start < snd ((rs @ [x]) ! k) \<and>
            (\<forall>j<length (rs @ [x]). strip (fst ((rs @ [x]) ! j)) \<noteq> [] \<longrightarrow>
               snd ((rs @ [x]) ! j) \<le> snd ((rs @ [x]) ! k)) \<and>
            (\<forall>j<k. strip (fst ((rs @ [x]) ! j)) \<noteq> [] \<longrightarrow> snd ((rs @ [x]) ! j) < snd ((rs @ [x]) ! k)))"
        using 1 2 3 4 by blast
    qed
    with f b show ?thesis by simp
  qed
qed

lemma answer_question_fold:
  assumes "pdf_text st \<noteq> []" "strip question \<noteq> []"
    and "split_text env (pdf_text st) 1000 100 st = (chunks, st1)"
    and "chunks \<noteq> []"
    and "\<forall>i. progress env i (length chunks) = None"
  shows "fst (answer_question env question st) =
     (let R = foldl best_step ([], 0) (returned_answers env question chunks) in
        if fst R = [] then ''I couldn't find an answer to that question in the document.''
        else fst R @ '' (Confidence: '' @ format_2f env (snd R) @ '')'')"
proof -
  from answer_loop_Inr [OF assms(5), of question 0 chunks "[]" 0 st1]
  obtain st2 where "answer_loop env question (length chunks) 0 chunks ([], 0, st1) =
     Inr (fst (foldl best_step ([], 0) (returned_answers env question chunks)),
          snd (foldl best_step ([], 0) (returned_answers env question chunks)), st2)" by blast
  with assms(1-4) show ?thesis
    by (simp add: answer_question_def Let_def)
qed

lemma returned_answers_set:
  "r \<in> set (returned_answers env q chunks) \<Longrightarrow>
   \<exists>c\<in>set chunks. snd (answer_question_from_context env q c) = Returns r"
  by (auto simp: returned_answers_def split: outcome.splits)



section \<open>Timers\<close>

text \<open>
  Every timer the loops start is cancelled or has fired when the iteration ends, on the
  three paths of the handlers.
\<close>

lemma disarmed_step:
  assumes "disarmed st"
  shows "disarmed (timer_cancel (fst (timer_start st)) (timer_elapse d e (fst (timer_start st)) (snd (timer_start st))))"
  using assms
  by (auto simp: disarmed_def timer_start_def timer_elapse_def timer_cancel_def nth_append list_update_append)

lemma disarmed_notify [simp]: "disarmed (notify m st) = disarmed st"
  by (simp add: disarmed_def notify_def)

lemma timers_notify [simp]: "timers (notify m st) = timers st"
  by (simp add: notify_def)

lemma timer_cancel_notify: "timer_cancel k (notify m st) = notify m (timer_cancel k st)"
  by (simp add: timer_cancel_def notify_def)

lemma summary_step_disarmed:
  assumes "disarmed st"
  shows "(summary_step env n i c (smr, st) = Inl (e, st') \<longrightarrow> disarmed st') \<and>
         (summary_step env n i c (smr, st) = Inr (smr', st') \<longrightarrow> disarmed st')"
proof (cases "summarize_text env c")
  case (Pair d out)
  note ds = disarmed_step [OF assms, of 60 d]
  show ?thesis
    using assms ds Pair
    by (auto simp: summary_step_def Let_def timer_cancel_notify split_beta
             split: option.splits outcome.splits exn.splits)
qed

lemma answer_step_disarmed:
  assumes "disarmed st"
  shows "(answer_step env q n i c (b, h, st) = Inl (e, st') \<longrightarrow> disarmed st') \<and>
         (answer_step env q n i c (b, h, st) = Inr (b', h', st') \<longrightarrow> disarmed st')"
proof (cases "answer_question_from_context env q c")
  case (Pair d out)
  note ds = disarmed_step [OF assms, of 30 d]
  show ?thesis
    using assms ds Pair
    by (auto simp: answer_step_def Let_def timer_cancel_notify split_beta
             split: option.splits outcome.splits exn.splits if_splits)
qed

lemma summary_loop_disarmed:
  "disarmed st \<Longrightarrow>
   (summary_loop env n i chunks (smr, st) = Inl (e, st') \<longrightarrow> disarmed st') \<and>
   (summary_loop env n i chunks (smr, st) = Inr (smr', st') \<longrightarrow> disarmed st')"
proof (induction chunks arbitrary: i smr st)
  case Nil
  then show ?case by auto
next
  case (Cons c cs)
  show ?case
  proof (cases "summary_step env n i c (smr, st)")
    case (Inl err)
    then show ?thesis
      using summary_step_disarmed [OF Cons.prems, of env n i c smr] by (cases err) auto
  next
    case (Inr acc)
    obtain s1 st1 where a: "acc = (s1, st1)" by (cases acc)
    from Inr a have "disarmed st1"
      using summary_step_disarmed [OF Cons.prems, of env n i c smr] by blast
    from Cons.IH [OF this, of "i + 1" s1] Inr a show ?thesis by simp
  qed
qed

lemma answer_loop_disarmed:
  "disarmed st \<Longrightarrow>
   (answer_loop env q n i chunks (b, h, st) = Inl (e, st') \<longrightarrow> disarmed st') \<and>
   (answer_loop env q n i chunks (b, h, st) = Inr (b', h', st') \<longrightarrow> disarmed st')"
proof (induction chunks arbitrary: i b h st)
  case Nil
  then show ?case by auto
next
  case (Cons c cs)
  show ?case
  proof (cases "answer_step env q n i c (b, h, st)")
    case (Inl err)
    then show ?thesis
      using answer_step_disarmed [OF Cons.prems, of env q n i c b h] by (cases err) auto
  next
    case (Inr acc)
    obtain b1 h1 st1 where a: "acc = (b1, h1, st1)" by (cases acc)
    from Inr a have "disarmed st1"
      using answer_step_disarmed [OF Cons.prems, of env q n i c b h] by blast
    from Cons.IH [OF this, of "i + 1" b1 h1] Inr a show ?thesis by simp
  qed
qed

lemma split_text_disarmed:
  "split_text env text m ov st = (chunks, st') \<Longrightarrow> disarmed st \<Longrightarrow> disarmed st'"
  by (auto simp: split_text_def split: if_splits sum.splits)

lemma disarmed_summary_update [simp]: "disarmed (st\<lparr>summary := x\<rparr>) = disarmed st"
  by (simp add: disarmed_def)

lemma timers_disarmed:
  assumes "disarmed st"
  shows "disarmed (snd (generate_summary env st)) \<and> disarmed (snd (answer_question env q st))"
proof
  obtain chunks st1 where s: "split_text env (pdf_text st) 500 50 st = (chunks, st1)"
    by (cases "split_text env (pdf_text st) 500 50 st")
  have d1: "disarmed st1" using s assms by (rule split_text_disarmed)
  show "disarmed (snd (generate_summary env st))"
  proof (cases "summary_loop env (length chunks) 0 chunks ([], st1)")
    case (Inl err)
    obtain e st2 where "err = (e, st2)" by (cases err)
    with Inl summary_loop_disarmed [OF d1, of env "length chunks" 0 chunks "[]" e st2]
    show ?thesis using s assms d1 by (simp add: generate_summary_def)
  next
    case (Inr acc)
    obtain smr st2 where "acc = (smr, st2)" by (cases acc)
    with Inr summary_loop_disarmed [OF d1, of env "length chunks" 0 chunks "[]" _ st2 smr]
    show ?thesis using s assms d1 by (simp add: generate_summary_def)
  qed
next
  obtain chunks st1 where s: "split_text env (pdf_text st) 1000 100 st = (chunks, st1)"
    by (cases "split_text env (pdf_text st) 1000 100 st")
  have d1: "disarmed st1" using s assms by (rule split_text_disarmed)
  show "disarmed (snd (answer_question env q st))"
  proof (cases "answer_loop env q (length chunks) 0 chunks ([], 0, st1)")
    case (Inl err)
    obtain e st2 where "err = (e, st2)" by (cases err)
    with Inl answer_loop_disarmed [OF d1, of env q "length chunks" 0 chunks "[]" 0 e st2]
    show ?thesis using s assms d1 by (simp add: answer_question_def)
  next
    case (Inr acc)
    obtain b h st2 where "acc = (b, h, st2)" by (cases acc)
    with Inr answer_loop_disarmed [OF d1, of env q "length chunks" 0 chunks "[]" 0 _ st2 b h]
    show ?thesis using s assms d1 by (simp add: answer_question_def)
  qed
qed

section \<open>The example inputs, evaluated\<close>

lemma chunk_100: "chunk_sentences 500 50 [replicate 100 CHR ''a''] = [replicate 100 CHR ''a'']"
  by (simp add: chunk_sentences_def split_step_def strip_def lstrip_def rstrip_def isspace_char_def)

lemma chunk_100': "chunk_sentences 1000 100 [replicate 100 CHR ''a''] = [replicate 100 CHR ''a'']"
  by (simp add: chunk_sentences_def split_step_def strip_def lstrip_def rstrip_def isspace_char_def)

lemma not_isspace_100: "\<not> isspace (replicate 100 CHR ''a'')"
  by (simp add: isspace_def list_all_iff isspace_char_def)

lemma three_chunks:
  "chunk_sentences 1000 100 three_sentences =
     [replicate 600 CHR ''a'', replicate 100 CHR ''a'' @ '' '' @ replicate 600 CHR ''b'',
      replicate 100 CHR ''b'' @ '' '' @ replicate 600 CHR ''c'']"
  by (simp add: three_sentences_def chunk_sentences_def split_step_def strip_def lstrip_def
      rstrip_def slice_from_def isspace_char_def dropWhile_append drop_Cons')

lemma short_middle_chunks:
  "chunk_sentences 500 50 short_middle =
     [replicate 600 CHR ''a'', replicate 50 CHR ''a'' @ '' Short.'',
      replicate 43 CHR ''a'' @ '' Short. '' @ replicate 600 CHR ''c'']"
  by (simp add: short_middle_def chunk_sentences_def split_step_def strip_def lstrip_def
      rstrip_def slice_from_def isspace_char_def dropWhile_append drop_Cons')

lemma not_isspace_a: "\<not> isspace (replicate 600 CHR ''a'' @ s)"
  by (simp add: isspace_def list_all_iff isspace_char_def)

lemma example_split_three:
  "split_text (example_env three_sentences f g) (pdf_text (example_app three_sentences)) 1000 100
     (example_app three_sentences) = (chunk_sentences 1000 100 three_sentences, example_app three_sentences)"
  using not_isspace_a
  by (simp add: split_text_def example_env_def example_app_def three_sentences_def)

lemma example_split_short:
  "split_text (example_env short_middle f g) (pdf_text (example_app short_middle)) 500 50
     (example_app short_middle) = (chunk_sentences 500 50 short_middle, example_app short_middle)"
  using not_isspace_a
  by (simp add: split_text_def example_env_def example_app_def short_middle_def)

lemma three_returned:
  "returned_answers (example_env three_sentences f three_scores) ''q''
     (chunk_sentences 1000 100 three_sentences) = [(''A'', 3 / 10), (''B'', 9 / 10), (''C'', 1 / 2)]"
  by (simp add: three_chunks returned_answers_def example_env_def three_scores_def)

lemma short_collected:
  "collected_summaries (example_env short_middle by_last g) (chunk_sentences 500 50 short_middle)
     = [''first'', ''third'']"
  by (simp add: short_middle_chunks collected_summaries_def example_env_def by_last_def)

section \<open>Claims about the chunker\<close>

text \<open>
  C2 (as amended). For every sentence sequence, every \<open>max_length > 0\<close> and
  \<open>0 \<le> overlap < max_length\<close>, every chunk has at most
  \<open>max_length + overlap + 1\<close> characters, except a chunk that holds a single sentence
  which alone exceeds \<open>max_length\<close>: such a chunk is that sentence after at most
  \<open>overlap\<close> characters and the separating space, stripped. With \<open>overlap = 0\<close>
  every chunk has at most \<open>max_length\<close> characters, except a chunk that is a sentence
  longer than \<open>max_length\<close>, stripped. No sentence is split: every sentence that is not
  empty and neither starts nor ends with whitespace is whole in some chunk.
\<close>

theorem chunk_length_bound:
  assumes "0 < max_length" "0 \<le> overlap" "overlap < max_length"
  shows "(\<forall>c\<in>set (chunk_sentences max_length overlap sentences).
            (int (length c) \<le> max_length + overlap + 1 \<or>
             (\<exists>s\<in>set sentences. max_length < int (length s) \<and>
                  (\<exists>t. int (length t) \<le> overlap \<and> c = strip (t @ '' '' @ s)) \<and>
                  int (length c) \<le> int (length s) + overlap + 1))
          \<and> (overlap = 0 \<longrightarrow>
                int (length c) \<le> max_length \<or>
                (\<exists>s\<in>set sentences. max_length < int (length s) \<and> c = strip ('' '' @ s) \<and>
                     int (length c) \<le> int (length s))))
       \<and> (\<forall>s\<in>set sentences.
            s \<noteq> [] \<and> \<not> isspace_char (hd s) \<and> \<not> isspace_char (last s) \<longrightarrow>
            (\<exists>c\<in>set (chunk_sentences max_length overlap sentences). sublist s c))"
proof
  show "\<forall>c\<in>set (chunk_sentences max_length overlap sentences).
            (int (length c) \<le> max_length + overlap + 1 \<or>
             (\<exists>s\<in>set sentences. max_length < int (length s) \<and>
                  (\<exists>t. int (length t) \<le> overlap \<and> c = strip (t @ '' '' @ s)) \<and>
                  int (length c) \<le> int (length s) + overlap + 1))
          \<and> (overlap = 0 \<longrightarrow>
                int (length c) \<le> max_length \<or>
                (\<exists>s\<in>set sentences. max_length < int (length s) \<and> c = strip ('' '' @ s) \<and>
                     int (length c) \<le> int (length s)))"
  proof (intro ballI conjI impI)
    fix c assume c: "c \<in> set (chunk_sentences max_length overlap sentences)"
    with chunk_sentences_chunk_ok [OF assms(1,2)]
    have "chunk_ok max_length overlap (set sentences) c" by blast
    then show "int (length c) \<le> max_length + overlap + 1 \<or>
             (\<exists>s\<in>set sentences. max_length < int (length s) \<and>
                  (\<exists>t. int (length t) \<le> overlap \<and> c = strip (t @ '' '' @ s)) \<and>
                  int (length c) \<le> int (length s) + overlap + 1)"
      unfolding chunk_ok_def using length_strip_tail by blast
  next
    fix c assume c: "c \<in> set (chunk_sentences max_length overlap sentences)" and z: "overlap = 0"
    with chunk_sentences_chunk_ok0 [OF assms(1)]
    have "chunk_ok0 max_length (set sentences) c" by blast
    then show "int (length c) \<le> max_length \<or>
                (\<exists>s\<in>set sentences. max_length < int (length s) \<and> c = strip ('' '' @ s) \<and>
                     int (length c) \<le> int (length s))"
      unfolding chunk_ok0_def using length_strip_space by blast
  qed
next
  show "\<forall>s\<in>set sentences.
            s \<noteq> [] \<and> \<not> isspace_char (hd s) \<and> \<not> isspace_char (last s) \<longrightarrow>
            (\<exists>c\<in>set (chunk_sentences max_length overlap sentences). sublist s c)"
    using chunk_sentences_covered [of _ sentences max_length overlap] by (simp add: clean_def)
qed

text \<open>
  At \<open>max_length = 10\<close>, \<open>overlap = 5\<close>, where no sentence exceeds 10, the second
  chunk has at most 16 characters and holds the second sentence whole. At
  \<open>max_length = 10\<close>, \<open>overlap = 0\<close>, with a last sentence of 19 characters, the first
  chunk is not that sentence, so it has at most 10 characters.
\<close>

theorem chunk_length_bound_witness:
  "''aaaaa bbbbbbb'' \<in> set (chunk_sentences 10 5 [''aaaaaaaa'', ''bbbbbbb''])
   \<and> int (length ''aaaaa bbbbbbb'') \<le> 10 + 5 + 1
   \<and> (\<exists>c\<in>set (chunk_sentences 10 5 [''aaaaaaaa'', ''bbbbbbb'']). sublist ''bbbbbbb'' c)
   \<and> chunk_sentences 10 0 [''aaaa'', ''bbbb'', ''cccc'', ''dddd'', ''eeeeeeeeeeeeeeeeeee'']
       = [''aaaa bbbb'', ''cccc dddd'', ''eeeeeeeeeeeeeeeeeee'']
   \<and> int (length ''aaaa bbbb'') \<le> 10"
proof -
  have m: "''aaaaa bbbbbbb'' \<in> set (chunk_sentences 10 5 [''aaaaaaaa'', ''bbbbbbb''])"
    by (simp add: chunk_sentences_def split_step_def strip_def lstrip_def rstrip_def
        isspace_char_def slice_from_def)
  have h: "(0::int) < 10" "(0::int) \<le> 5" "(5::int) < 10" by simp_all
  note T = chunk_length_bound [OF h, of "[''aaaaaaaa'', ''bbbbbbb'']"]
  from conjunct1 [OF T] m
  have "int (length ''aaaaa bbbbbbb'') \<le> 10 + 5 + 1 \<or>
        (\<exists>s\<in>set [''aaaaaaaa'', ''bbbbbbb'']. 10 < int (length s) \<and>
             (\<exists>t. int (length t) \<le> 5 \<and> ''aaaaa bbbbbbb'' = strip (t @ '' '' @ s)) \<and>
             int (length ''aaaaa bbbbbbb'') \<le> int (length s) + 5 + 1)"
    by blast
  then have b: "int (length ''aaaaa bbbbbbb'') \<le> 10 + 5 + 1" by simp
  have "''bbbbbbb'' \<in> set [''aaaaaaaa'', ''bbbbbbb'']" by simp
  moreover have "''bbbbbbb'' \<noteq> [] \<and> \<not> isspace_char (hd ''bbbbbbb'') \<and> \<not> isspace_char (last ''bbbbbbb'')"
    by (simp add: isspace_char_def)
  ultimately have w: "\<exists>c\<in>set (chunk_sentences 10 5 [''aaaaaaaa'', ''bbbbbbb'']). sublist ''bbbbbbb'' c"
    using conjunct2 [OF T] by blast
  let ?ss = "[''aaaa'', ''bbbb'', ''cccc'', ''dddd'', ''eeeeeeeeeeeeeeeeeee'']"
  have e: "chunk_sentences 10 0 ?ss = [''aaaa bbbb'', ''cccc dddd'', ''eeeeeeeeeeeeeeeeeee'']"
    by (simp add: chunk_sentences_def split_step_def strip_def lstrip_def rstrip_def
        isspace_char_def slice_from_def)
  have h0: "(0::int) < 10" "(0::int) \<le> 0" "(0::int) < 10" by simp_all
  note T0 = chunk_length_bound [OF h0, of ?ss]
  have "''aaaa bbbb'' \<in> set (chunk_sentences 10 0 ?ss)" by (simp add: e)
  with conjunct1 [OF T0]
  have "int (length ''aaaa bbbb'') \<le> 10 \<or>
        (\<exists>s\<in>set ?ss. 10 < int (length s) \<and> ''aaaa bbbb'' = strip ('' '' @ s) \<and>
             int (length ''aaaa bbbb'') \<le> int (length s))"
    by blast
  then have b0: "int (length ''aaaa bbbb'') \<le> 10" by simp
  from m b w e b0 show ?thesis by blast
qed

text \<open>
  C2 as stated fails: with \<open>max_length = 10\<close> and \<open>overlap = 5\<close> the sentences
  \<open>aaaaaaaa\<close> and \<open>bbbbbbb\<close>, neither longer than 10, give a second chunk of 13
  characters: the overlap and the sentence that did not fit are joined unchecked.
\<close>

theorem chunk_length_counterexample:
  "(0::int) < 10 \<and> (0::int) \<le> 5 \<and> (5::int) < 10
   \<and> int (length ''aaaaaaaa'') \<le> 10 \<and> int (length ''bbbbbbb'') \<le> 10
   \<and> chunk_sentences 10 5 [''aaaaaaaa'', ''bbbbbbb''] = [''aaaaaaaa'', ''aaaaa bbbbbbb'']
   \<and> \<not> int (length ''aaaaa bbbbbbb'') \<le> 10"
  by (simp add: chunk_sentences_def split_step_def strip_def lstrip_def rstrip_def
      isspace_char_def slice_from_def)

text \<open>
  C3 (as amended). For every sequence of sentences that are not empty and do not end
  in whitespace, chunked with \<open>overlap > 0\<close>, and every adjacent pair of chunks
  \<open>i\<close> and \<open>i+1\<close>: the trailing at most \<open>overlap\<close> characters of chunk \<open>i\<close>,
  without their leading whitespace, are a prefix of chunk \<open>i+1\<close>.
\<close>

theorem chunk_overlap:
  assumes "0 < overlap"
    and "\<forall>s\<in>set sentences. s \<noteq> [] \<and> \<not> isspace_char (last s)"
    and "Suc i < length (chunk_sentences max_length overlap sentences)"
  shows "prefix (lstrip (tail_overlap overlap (chunk_sentences max_length overlap sentences ! i)))
           (chunk_sentences max_length overlap sentences ! Suc i)"
proof (cases sentences)
  case Nil
  with assms(3) show ?thesis by (simp add: chunk_sentences_def strip_def lstrip_def rstrip_def)
next
  case (Cons s ss)
  have c: "\<forall>s\<in>set sentences. ends_clean s" using assms(2) by (simp add: ends_clean_def)
  with Cons have s: "ends_clean ('' '' @ s)" and ss: "\<forall>s\<in>set ss. ends_clean s"
    by (simp_all add: ends_clean_def)
  have "chunk_sentences max_length overlap sentences = chunks_from max_length overlap ('' '' @ s) ss"
    unfolding Cons chunk_sentences_chunks_from by (rule chunks_from_empty_buffer)
  with chunks_from_overlaps [OF assms(1) s ss, of max_length]
  have "successively (overlaps overlap) (chunk_sentences max_length overlap sentences)" by simp
  from successively_nth [OF this assms(3)] show ?thesis by (simp add: overlaps_def)
qed

theorem chunk_overlap_witness:
  "(0::int) < 3 \<and> list_all ends_clean [''aaaa'', ''bb'', ''cccccc'']
   \<and> Suc 0 < length (chunk_sentences 10 3 [''aaaa'', ''bb'', ''cccccc''])
   \<and> prefix (lstrip (tail_overlap 3 (chunk_sentences 10 3 [''aaaa'', ''bb'', ''cccccc''] ! 0)))
        (chunk_sentences 10 3 [''aaaa'', ''bb'', ''cccccc''] ! Suc 0)"
proof -
  have c: "chunk_sentences 10 3 [''aaaa'', ''bb'', ''cccccc''] = [''aaaa bb'', ''bb cccccc'']"
    by (simp add: chunk_sentences_def split_step_def strip_def lstrip_def rstrip_def
        isspace_char_def slice_from_def)
  have h1: "(0::int) < 3" by simp
  have h2: "\<forall>s\<in>set [''aaaa'', ''bb'', ''cccccc'']. s \<noteq> [] \<and> \<not> isspace_char (last s)"
    by (simp add: isspace_char_def)
  have h3: "Suc 0 < length (chunk_sentences 10 3 [''aaaa'', ''bb'', ''cccccc''])"
    by (simp add: c)
  have e: "list_all ends_clean [''aaaa'', ''bb'', ''cccccc'']"
    by (simp add: ends_clean_def isspace_char_def)
  from chunk_overlap [OF h1 h2 h3] h1 h3 e show ?thesis by simp
qed

text \<open>
  C3 as stated fails: with \<open>max_length = 10\<close> and \<open>overlap = 3\<close> the first chunk ends
  in \<open>" bb"\<close>, and the second chunk, stripped when it is added, starts with \<open>"bb "\<close>.
\<close>

theorem chunk_overlap_counterexample:
  "chunk_sentences 10 3 [''aaaa'', ''bb'', ''cccccc''] = [''aaaa bb'', ''bb cccccc'']
   \<and> tail_overlap 3 ''aaaa bb'' = '' bb''
   \<and> \<not> prefix '' bb'' ''bb cccccc''"
  by (simp add: chunk_sentences_def split_step_def strip_def lstrip_def rstrip_def
      isspace_char_def slice_from_def tail_overlap_def)

section \<open>Claims about the aggregators\<close>

text \<open>
  C1. With a document that yields chunks, a question that is not blank and a display
  that does not raise, \<open>answer_question\<close> returns the answer of the chunk with the
  highest confidence among the returned answers that are not blank after trimming, the
  first of them on a tie, with its confidence; the best pair starts at \<open>("", 0)\<close> and
  only a strictly greater score replaces it, so when every returned answer is blank or
  scores at most 0 the result is the "no answer found" message.
\<close>

theorem answer_question_best:
  assumes "pdf_text st \<noteq> []" "strip question \<noteq> []"
    and "split_text env (pdf_text st) 1000 100 st = (chunks, st1)"
    and "chunks \<noteq> []"
    and "\<forall>i. progress env i (length chunks) = None"
    and "rs = returned_answers env question chunks"
  shows "((\<forall>j<length rs. strip (fst (rs ! j)) = [] \<or> snd (rs ! j) \<le> 0) \<longrightarrow>
            fst (answer_question env question st) =
              ''I couldn't find an answer to that question in the document.'')
       \<and> ((\<exists>j<length rs. strip (fst (rs ! j)) \<noteq> [] \<and> 0 < snd (rs ! j)) \<longrightarrow>
            (\<exists>k<length rs.
               fst (answer_question env question st) =
                 fst (rs ! k) @ '' (Confidence: '' @ format_2f env (snd (rs ! k)) @ '')''
               \<and> strip (fst (rs ! k)) \<noteq> []
               \<and> (\<forall>j<length rs. strip (fst (rs ! j)) \<noteq> [] \<longrightarrow> snd (rs ! j) \<le> snd (rs ! k))
               \<and> (\<forall>j<k. strip (fst (rs ! j)) \<noteq> [] \<longrightarrow> snd (rs ! j) < snd (rs ! k))))"
proof -
  let ?R = "foldl best_step ([], 0) rs"
  have r: "fst (answer_question env question st) =
     (if fst ?R = [] then ''I couldn't find an answer to that question in the document.''
      else fst ?R @ '' (Confidence: '' @ format_2f env (snd ?R) @ '')'')"
    using answer_question_fold [OF assms(1-5)] assms(6) by (simp add: Let_def)
  have k: "kept ([], 0) rs ?R" by (rule foldl_best_step_kept)
  have a: "fst (answer_question env question st) =
              ''I couldn't find an answer to that question in the document.''"
    if h: "\<forall>j<length rs. strip (fst (rs ! j)) = [] \<or> snd (rs ! j) \<le> 0"
  proof -
    from k h have "?R = ([], 0)" unfolding kept_def by (auto simp: not_less)
    with r show ?thesis by simp
  qed
  have b: "\<exists>k<length rs.
               fst (answer_question env question st) =
                 fst (rs ! k) @ '' (Confidence: '' @ format_2f env (snd (rs ! k)) @ '')''
               \<and> strip (fst (rs ! k)) \<noteq> []
               \<and> (\<forall>j<length rs. strip (fst (rs ! j)) \<noteq> [] \<longrightarrow> snd (rs ! j) \<le> snd (rs ! k))
               \<and> (\<forall>j<k. strip (fst (rs ! j)) \<noteq> [] \<longrightarrow> snd (rs ! j) < snd (rs ! k))"
    if h: "\<exists>j<length rs. strip (fst (rs ! j)) \<noteq> [] \<and> 0 < snd (rs ! j)"
  proof -
    from h have "\<not> (\<forall>j<length rs. strip (fst (rs ! j)) \<noteq> [] \<longrightarrow> snd (rs ! j) \<le> snd (([], 0) :: string \<times> real))"
      by (auto simp: not_le)
    with k obtain m where m: "m < length rs" "?R = rs ! m" "strip (fst (rs ! m)) \<noteq> []"
        "\<forall>j<length rs. strip (fst (rs ! j)) \<noteq> [] \<longrightarrow> snd (rs ! j) \<le> snd (rs ! m)"
        "\<forall>j<m. strip (fst (rs ! j)) \<noteq> [] \<longrightarrow> snd (rs ! j) < snd (rs ! m)"
      unfolding kept_def by blast
    from m(3) have "fst (rs ! m) \<noteq> []" by auto
    with r m(2) have "fst (answer_question env question st) =
                 fst (rs ! m) @ '' (Confidence: '' @ format_2f env (snd (rs ! m)) @ '')''" by simp
    with m show ?thesis by blast
  qed
  from a b show ?thesis by blast
qed

text \<open>Confidences 0.3, 0.9 and 0.5: the answer of the second chunk is returned.\<close>

theorem answer_question_best_witness:
  "pdf_text (example_app three_sentences) \<noteq> [] \<and> strip ''q'' \<noteq> []
   \<and> returned_answers (example_env three_sentences by_last three_scores) ''q''
        (chunk_sentences 1000 100 three_sentences) = [(''A'', 3 / 10), (''B'', 9 / 10), (''C'', 1 / 2)]
   \<and> fst (answer_question (example_env three_sentences by_last three_scores) ''q''
            (example_app three_sentences)) = ''B (Confidence: 0.90)''"
proof -
  let ?env = "example_env three_sentences by_last three_scores"
  let ?st = "example_app three_sentences"
  let ?rs = "[(''A'', 3 / 10), (''B'', 9 / 10), (''C'', 1 / 2)] :: (string \<times> real) list"
  have h1: "pdf_text ?st \<noteq> []" by (simp add: example_app_def three_sentences_def)
  have h2: "strip ''q'' \<noteq> []" by (simp add: strip_def lstrip_def rstrip_def isspace_char_def)
  have h3: "split_text ?env (pdf_text ?st) 1000 100 ?st = (chunk_sentences 1000 100 three_sentences, ?st)"
    by (rule example_split_three)
  have h4: "chunk_sentences 1000 100 three_sentences \<noteq> []" by (simp add: three_chunks)
  have h5: "\<forall>i. progress ?env i (length (chunk_sentences 1000 100 three_sentences)) = None"
    by (simp add: example_env_def)
  have h6: "?rs = returned_answers ?env ''q'' (chunk_sentences 1000 100 three_sentences)"
    by (simp add: three_returned)
  have q: "\<exists>j<length ?rs. strip (fst (?rs ! j)) \<noteq> [] \<and> 0 < snd (?rs ! j)"
    by (intro exI [of _ 0]) (simp add: strip_def lstrip_def rstrip_def isspace_char_def)
  from answer_question_best [OF h1 h2 h3 h4 h5 h6] q
  obtain k where k: "k < length ?rs"
      "fst (answer_question ?env ''q'' ?st) =
         fst (?rs ! k) @ '' (Confidence: '' @ format_2f ?env (snd (?rs ! k)) @ '')''"
      "\<forall>j<length ?rs. strip (fst (?rs ! j)) \<noteq> [] \<longrightarrow> snd (?rs ! j) \<le> snd (?rs ! k)"
    by blast
  have "(1::nat) < length ?rs" by simp
  with k(3) have "strip (fst (?rs ! 1)) \<noteq> [] \<longrightarrow> snd (?rs ! 1) \<le> snd (?rs ! k)" by blast
  then have m: "(9 / 10 :: real) \<le> snd (?rs ! k)"
    by (simp add: strip_def lstrip_def rstrip_def isspace_char_def)
  from k(1) have "k = 0 \<or> k = 1 \<or> k = 2" by auto
  with m have "k = 1" by auto
  with k(2) have "fst (answer_question ?env ''q'' ?st) = ''B (Confidence: 0.90)''"
    by (simp add: example_env_def)
  with h1 h2 h6 show ?thesis by simp
qed



text \<open>
  C5 (what the code does). A summarization call that takes 61 seconds and a question
  answering call that takes 31 seconds, both returning: the timers fire, in their own
  threads, and the loops use the returned values; no chunk is skipped and no warning is
  shown.
\<close>

theorem deadline_passed_unobserved:
  "generate_summary
     \<lparr>sent_tokenize = (\<lambda>t. Inr [t]),
      summarize_text = (\<lambda>c. (61, Returns ''S'')),
      answer_question_from_context = (\<lambda>q c. (31, Returns (''A'', 1))),
      progress = (\<lambda>i n. None),
      format_2f = (\<lambda>r. ''1.00'')\<rparr>
     \<lparr>pdf_text = replicate 100 CHR ''a'', summary = [], notifications = [], timers = []\<rparr>
   = (''S'', \<lparr>pdf_text = replicate 100 CHR ''a'', summary = ''S'', notifications = [],
             timers = [Fired]\<rparr>)
   \<and> answer_question
     \<lparr>sent_tokenize = (\<lambda>t. Inr [t]),
      summarize_text = (\<lambda>c. (61, Returns ''S'')),
      answer_question_from_context = (\<lambda>q c. (31, Returns (''A'', 1))),
      progress = (\<lambda>i n. None),
      format_2f = (\<lambda>r. ''1.00'')\<rparr>
     ''q''
     \<lparr>pdf_text = replicate 100 CHR ''a'', summary = [], notifications = [], timers = []\<rparr>
   = (''A (Confidence: 1.00)'',
      \<lparr>pdf_text = replicate 100 CHR ''a'', summary = [], notifications = [], timers = [Fired]\<rparr>)"
  by (simp add: generate_summary_def answer_question_def split_text_def not_isspace_100
      chunk_100 chunk_100' summary_step_def answer_step_def timer_start_def timer_elapse_def
      timer_cancel_def strip_def lstrip_def rstrip_def isspace_char_def)



text \<open>
  C7. \<open>answer_question\<close> returns "Please load a PDF first." when no document is
  loaded and, with a document, "Please enter a valid question." when the question is
  empty or whitespace only; the state is returned as it was, whatever the collaborators
  are: no chunk is processed, nothing is shown, no timer is started.
\<close>

theorem answer_question_preconditions:
  "(pdf_text st = [] \<longrightarrow> answer_question env question st = (''Please load a PDF first.'', st))
   \<and> (pdf_text st \<noteq> [] \<and> (question = [] \<or> isspace question) \<longrightarrow>
        answer_question env question st = (''Please enter a valid question.'', st))"
  using strip_blank_iff [of question] by (auto simp: answer_question_def)

theorem answer_question_preconditions_witness:
  "answer_question (example_env three_sentences by_last three_scores) ''q'' (example_app [])
     = (''Please load a PDF first.'', example_app [])
   \<and> pdf_text (example_app three_sentences) \<noteq> [] \<and> isspace ''  ''
   \<and> answer_question (example_env three_sentences by_last three_scores) ''  ''
        (example_app three_sentences)
     = (''Please enter a valid question.'', example_app three_sentences)"
proof -
  let ?env = "example_env three_sentences by_last three_scores"
  have a: "pdf_text (example_app []) = []" by (simp add: example_app_def)
  have b: "pdf_text (example_app three_sentences) \<noteq> []"
    by (simp add: example_app_def three_sentences_def)
  have c: "isspace ''  ''" by (simp add: isspace_def isspace_char_def)
  from answer_question_preconditions [of "example_app []" ?env "''q''"] a
  have 1: "answer_question ?env ''q'' (example_app []) = (''Please load a PDF first.'', example_app [])"
    by blast
  from answer_question_preconditions [of "example_app three_sentences" ?env "''  ''"] b c
  have 2: "answer_question ?env ''  '' (example_app three_sentences)
     = (''Please enter a valid question.'', example_app three_sentences)"
    by blast
  from 1 2 b c show ?thesis by blast
qed

text \<open>
  C8 (as amended). For every empty or whitespace-only text the chunker returns no
  chunk, and both aggregators return at once, the state unchanged: "Please load a PDF
  first." for the empty text; for a whitespace-only text the "Unable to extract
  meaningful text" message of the aggregator (\<open>answer_question\<close> after its check of
  the question).
\<close>

theorem blank_document_short_circuits:
  assumes "text = [] \<or> isspace text"
  shows "split_text env text max_length overlap st = ([], st)
       \<and> (pdf_text st = text \<longrightarrow>
            generate_summary env st =
              (if text = [] then ''Please load a PDF first.''
               else ''Unable to extract meaningful text from the PDF.'', st)
          \<and> answer_question env question st =
              (if text = [] then ''Please load a PDF first.''
               else if question = [] \<or> isspace question then ''Please enter a valid question.''
               else ''Unable to extract meaningful text from the PDF to answer questions.'', st))"
  using assms strip_blank_iff [of question]
  by (auto simp: split_text_blank generate_summary_def answer_question_def)

theorem blank_document_short_circuits_witness:
  "isspace [CHR 0x0A, CHR 0x0A]
   \<and> split_text (example_env [] by_last three_scores) [CHR 0x0A, CHR 0x0A] 1000 100
        \<lparr>pdf_text = [CHR 0x0A, CHR 0x0A], summary = [], notifications = [], timers = []\<rparr>
      = ([], \<lparr>pdf_text = [CHR 0x0A, CHR 0x0A], summary = [], notifications = [], timers = []\<rparr>)
   \<and> generate_summary (example_env [] by_last three_scores)
        \<lparr>pdf_text = [CHR 0x0A, CHR 0x0A], summary = [], notifications = [], timers = []\<rparr>
      = (''Unable to extract meaningful text from the PDF.'',
         \<lparr>pdf_text = [CHR 0x0A, CHR 0x0A], summary = [], notifications = [], timers = []\<rparr>)
   \<and> answer_question (example_env [] by_last three_scores) ''q''
        \<lparr>pdf_text = [CHR 0x0A, CHR 0x0A], summary = [], notifications = [], timers = []\<rparr>
      = (''Unable to extract meaningful text from the PDF to answer questions.'',
         \<lparr>pdf_text = [CHR 0x0A, CHR 0x0A], summary = [], notifications = [], timers = []\<rparr>)"
proof -
  let ?env = "example_env [] by_last three_scores"
  let ?t = "[CHR 0x0A, CHR 0x0A]"
  let ?st = "\<lparr>pdf_text = ?t, summary = [], notifications = [], timers = []\<rparr>"
  have n: "isspace ?t" by (simp add: isspace_def isspace_char_def)
  then have h: "?t = [] \<or> isspace ?t" by blast
  have p: "pdf_text ?st = ?t" by simp
  have q: "\<not> (''q'' = [] \<or> isspace ''q'')" by (simp add: isspace_def isspace_char_def)
  from blank_document_short_circuits [OF h, of ?env 1000 100 ?st "''q''"] p q
  have "split_text ?env ?t 1000 100 ?st = ([], ?st)
      \<and> generate_summary ?env ?st = (''Unable to extract meaningful text from the PDF.'', ?st)
      \<and> answer_question ?env ''q'' ?st
          = (''Unable to extract meaningful text from the PDF to answer questions.'', ?st)"
    by simp
  with n show ?thesis by blast
qed

text \<open>
  C8 as stated fails: a document of one newline, such as a page without text gives,
  is not empty, so both aggregators pass the first check and return their "Unable to
  extract meaningful text" message.
\<close>

theorem blank_document_counterexample:
  "isspace [CHR 0x0A]
   \<and> fst (generate_summary (example_env [] by_last three_scores)
        \<lparr>pdf_text = [CHR 0x0A], summary = [], notifications = [], timers = []\<rparr>)
      = ''Unable to extract meaningful text from the PDF.''
   \<and> fst (generate_summary (example_env [] by_last three_scores)
        \<lparr>pdf_text = [CHR 0x0A], summary = [], notifications = [], timers = []\<rparr>)
      \<noteq> ''Please load a PDF first.''
   \<and> fst (answer_question (example_env [] by_last three_scores) ''q''
        \<lparr>pdf_text = [CHR 0x0A], summary = [], notifications = [], timers = []\<rparr>)
      = ''Unable to extract meaningful text from the PDF to answer questions.''
   \<and> fst (answer_question (example_env [] by_last three_scores) ''q''
        \<lparr>pdf_text = [CHR 0x0A], summary = [], notifications = [], timers = []\<rparr>)
      \<noteq> ''Please load a PDF first.''"
  by (simp add: isspace_def isspace_char_def generate_summary_def answer_question_def
      split_text_def strip_def lstrip_def rstrip_def)

text \<open>
  C9. With a document that yields chunks, a question that is not blank and a display
  that does not raise, if every returned confidence is 0 then \<open>answer_question\<close>
  returns the "no answer found" message, whatever the answers are.
\<close>

theorem zero_confidence_no_answer:
  assumes "pdf_text st \<noteq> []" "strip question \<noteq> []"
    and "split_text env (pdf_text st) 1000 100 st = (chunks, st1)"
    and "chunks \<noteq> []"
    and "\<forall>i. progress env i (length chunks) = None"
    and "\<forall>c\<in>set chunks. \<forall>a sc. snd (answer_question_from_context env question c) = Returns (a, sc) \<longrightarrow> sc = 0"
  shows "fst (answer_question env question st) =
           ''I couldn't find an answer to that question in the document.''"
proof -
  let ?rs = "returned_answers env question chunks"
  have z: "\<forall>j<length ?rs. snd (?rs ! j) \<le> snd (([], 0) :: string \<times> real)"
  proof (intro allI impI)
    fix j assume "j < length ?rs"
    then have "?rs ! j \<in> set ?rs" by simp
    from returned_answers_set [OF this] assms(6) have "snd (?rs ! j) = 0"
      by (metis prod.collapse)
    then show "snd (?rs ! j) \<le> snd (([], 0) :: string \<times> real)" by simp
  qed
  have "kept ([], 0) ?rs (foldl best_step ([], 0) ?rs)" by (rule foldl_best_step_kept)
  with z have "foldl best_step ([], 0) ?rs = ([], 0)"
    unfolding kept_def by (auto simp: not_less)
  with answer_question_fold [OF assms(1-5)] show ?thesis by (simp add: Let_def)
qed

theorem zero_confidence_no_answer_witness:
  "pdf_text (example_app three_sentences) \<noteq> [] \<and> strip ''q'' \<noteq> []
   \<and> returned_answers (example_env three_sentences by_last (\<lambda>c. Returns (''A'', 0))) ''q''
        (chunk_sentences 1000 100 three_sentences) = [(''A'', 0), (''A'', 0), (''A'', 0)]
   \<and> fst (answer_question (example_env three_sentences by_last (\<lambda>c. Returns (''A'', 0))) ''q''
            (example_app three_sentences)) =
        ''I couldn't find an answer to that question in the document.''"
proof -
  let ?env = "example_env three_sentences by_last (\<lambda>c. Returns (''A'', 0))"
  let ?st = "example_app three_sentences"
  have h1: "pdf_text ?st \<noteq> []" by (simp add: example_app_def three_sentences_def)
  have h2: "strip ''q'' \<noteq> []" by (simp add: strip_def lstrip_def rstrip_def isspace_char_def)
  have h3: "split_text ?env (pdf_text ?st) 1000 100 ?st = (chunk_sentences 1000 100 three_sentences, ?st)"
    by (rule example_split_three)
  have h4: "chunk_sentences 1000 100 three_sentences \<noteq> []" by (simp add: three_chunks)
  have h5: "\<forall>i. progress ?env i (length (chunk_sentences 1000 100 three_sentences)) = None"
    by (simp add: example_env_def)
  have h6: "\<forall>c\<in>set (chunk_sentences 1000 100 three_sentences). \<forall>a sc.
      snd (answer_question_from_context ?env ''q'' c) = Returns (a, sc) \<longrightarrow> sc = 0"
    by (simp add: example_env_def)
  have r: "returned_answers ?env ''q'' (chunk_sentences 1000 100 three_sentences) =
      [(''A'', 0), (''A'', 0), (''A'', 0)]"
    by (simp add: three_chunks returned_answers_def example_env_def)
  from zero_confidence_no_answer [OF h1 h2 h3 h4 h5 h6] h1 h2 r show ?thesis by simp
qed

text \<open>
  C10. \<open>generate_summary\<close> leaves the stored summary as it was when no document is
  loaded, when there is no chunk, when an exception leaves the loop and when no summary
  was collected; it stores the joined summaries, which it returns, on the remaining
  path only.
\<close>

theorem summary_written_only_on_success:
  assumes "generate_summary env st = (r, st')"
    and "split_text env (pdf_text st) 500 50 st = (chunks, st1)"
  shows "(pdf_text st = [] \<longrightarrow> summary st' = summary st)
       \<and> (chunks = [] \<longrightarrow> summary st' = summary st)
       \<and> (\<forall>e st2. summary_loop env (length chunks) 0 chunks ([], st1) = Inl (e, st2)
             \<longrightarrow> summary st' = summary st)
       \<and> (\<forall>st2. summary_loop env (length chunks) 0 chunks ([], st1) = Inr ([], st2)
             \<longrightarrow> summary st' = summary st)
       \<and> (\<forall>smr st2. pdf_text st \<noteq> [] \<and> chunks \<noteq> [] \<and> smr \<noteq> [] \<and>
             summary_loop env (length chunks) 0 chunks ([], st1) = Inr (smr, st2)
             \<longrightarrow> summary st' = join '' '' smr \<and> r = join '' '' smr)"
proof -
  have s1: "summary st1 = summary st" using assms(2) by (rule split_text_summary)
  have a: "pdf_text st = [] \<longrightarrow> summary st' = summary st"
    using assms(1) by (auto simp: generate_summary_def)
  have b: "chunks = [] \<longrightarrow> summary st' = summary st"
    using assms s1 by (auto simp: generate_summary_def split: if_splits)
  have c: "summary st' = summary st"
    if "summary_loop env (length chunks) 0 chunks ([], st1) = Inl (e, st2)" for e st2
  proof -
    have "summary st2 = summary st1" using summary_loop_summary that by blast
    with that assms s1 show ?thesis
      by (auto simp: generate_summary_def split: if_splits)
  qed
  have d: "summary st' = summary st"
    if "summary_loop env (length chunks) 0 chunks ([], st1) = Inr ([], st2)" for st2
  proof -
    have "summary st2 = summary st1" using summary_loop_summary that by blast
    with that assms s1 show ?thesis
      by (auto simp: generate_summary_def split: if_splits)
  qed
  have e: "summary st' = join '' '' smr \<and> r = join '' '' smr"
    if "pdf_text st \<noteq> []" "chunks \<noteq> []" "smr \<noteq> []"
       "summary_loop env (length chunks) 0 chunks ([], st1) = Inr (smr, st2)" for smr st2
    using that assms by (auto simp: generate_summary_def)
  from a b c d e show ?thesis by blast
qed

theorem summary_written_only_on_success_witness:
  "summary (example_app short_middle) = ''old''
   \<and> summary (snd (generate_summary (example_env short_middle by_last three_scores)
        (example_app short_middle))) = ''first third''
   \<and> fst (generate_summary (example_env short_middle (\<lambda>c. Raises (Exception ''model'')) three_scores)
        (example_app short_middle))
      = ''Could not generate a summary. Try a different document or check document quality.''
   \<and> summary (snd (generate_summary (example_env short_middle (\<lambda>c. Raises (Exception ''model'')) three_scores)
        (example_app short_middle))) = ''old''"
proof -
  let ?st = "example_app short_middle"
  let ?chunks = "chunk_sentences 500 50 short_middle"
  let ?good = "example_env short_middle by_last three_scores"
  let ?bad = "example_env short_middle (\<lambda>c. Raises (Exception ''model'')) three_scores"
  have o: "summary ?st = ''old''" by (simp add: example_app_def)
  have h1: "pdf_text ?st \<noteq> []" by (simp add: example_app_def short_middle_def)
  have h3: "?chunks \<noteq> []" by (simp add: short_middle_chunks)
  obtain r st' where g: "generate_summary ?good ?st = (r, st')"
    by (cases "generate_summary ?good ?st")
  have sg: "split_text ?good (pdf_text ?st) 500 50 ?st = (?chunks, ?st)"
    by (rule example_split_short)
  have pg: "\<forall>j. progress ?good j (length ?chunks) = None" by (simp add: example_env_def)
  from summary_loop_Inr [OF pg, of 0 ?chunks "[]" ?st] short_collected [of three_scores]
  obtain st2 where lg: "summary_loop ?good (length ?chunks) 0 ?chunks ([], ?st) = Inr ([''first'', ''third''], st2)"
    by auto
  from summary_written_only_on_success [OF g sg] h1 h3 lg
  have "summary st' = join '' '' [''first'', ''third'']" by blast
  with g have a: "summary (snd (generate_summary ?good ?st)) = ''first third''" by simp
  obtain r2 st2' where b: "generate_summary ?bad ?st = (r2, st2')"
    by (cases "generate_summary ?bad ?st")
  have sb: "split_text ?bad (pdf_text ?st) 500 50 ?st = (?chunks, ?st)"
    by (rule example_split_short)
  have pb: "\<forall>j. progress ?bad j (length ?chunks) = None" by (simp add: example_env_def)
  have cb: "collected_summaries ?bad ?chunks = []"
    by (simp add: collected_summaries_def example_env_def)
  from summary_loop_Inr [OF pb, of 0 ?chunks "[]" ?st] cb
  obtain st3 where lb: "summary_loop ?bad (length ?chunks) 0 ?chunks ([], ?st) = Inr ([], st3)"
    by auto
  from summary_written_only_on_success [OF b sb] lb
  have "summary st2' = summary ?st" by blast
  with b o have c: "summary (snd (generate_summary ?bad ?st)) = ''old''" by simp
  have d: "fst (generate_summary ?bad ?st)
      = ''Could not generate a summary. Try a different document or check document quality.''"
    using h1 sb h3 lb by (simp add: generate_summary_def)
  from o a c d show ?thesis by blast
qed

end
